theory Spec2Isabelle
  imports Main
begin

section \<open>The RSC hot-update plugin of waku: data model\<close>

text \<open>
  The development embeds \<^verbatim>\<open>src/unnamed/part_001\<close> (the \<^verbatim>\<open>rsc-hmr-plugin\<close>):
  \<^verbatim>\<open>modulePendingMap\<close>, \<^verbatim>\<open>waitForConnection\<close>, \<^verbatim>\<open>moduleImport\<close>,
  \<^verbatim>\<open>generateInitialScripts\<close>, \<^verbatim>\<open>hotUpdate\<close>, the \<^verbatim>\<open>transform\<close> hook and the
  \<^verbatim>\<open>rsc-reload\<close> handler of \<^verbatim>\<open>injectingHmrCode\<close>.

  JavaScript objects are compared by reference. A \<^verbatim>\<open>ViteDevServer\<close>, a web socket and a
  \<^verbatim>\<open>ModuleImportResult\<close> are therefore addresses; the fields of a
  \<^verbatim>\<open>ModuleImportResult\<close> live in a store that maps its address to a record. The code
  never writes to such an object, so the store is a parameter of the one function
  that reads the fields. Of the fields that \<^verbatim>\<open>TransformResult\<close> brings, the code reads
  \<^verbatim>\<open>code\<close> only.
\<close>

type_synonym ViteDevServer = nat
type_synonym socket = nat
type_synonym ref = nat

record ModuleImportResult =
  id' :: string
  code :: string
  source :: string
  css :: "bool option"

type_synonym store = "ref \<Rightarrow> ModuleImportResult"

datatype HotUpdatePayload =
    FullReload
  | RscReload
  | HotImport string
  | ModuleImport ref

text \<open>
  What happens at the transport of a server, in the order it happens: a
  \<^verbatim>\<open>'connection'\<close> event of \<^verbatim>\<open>vite.ws\<close>, or a call of \<^verbatim>\<open>vite.hot.send\<close>.
\<close>

datatype wire =
    Connection ViteDevServer socket
  | Send ViteDevServer HotUpdatePayload

text \<open>
  The state of the module. \<^verbatim>\<open>modulePendingMap\<close> is the \<^verbatim>\<open>WeakMap\<close> from server to
  \<^verbatim>\<open>Set<ModuleImportResult>\<close>; a JavaScript \<^verbatim>\<open>Set\<close> keeps insertion order, so it is
  a list of addresses. \<open>suspended\<close> holds the calls of \<^verbatim>\<open>moduleImport\<close> that are parked
  at \<^verbatim>\<open>await waitForConnection(viteServer)\<close>, in the order their listeners were
  registered with \<^verbatim>\<open>vite.ws.on('connection', resolve)\<close>.
\<close>

record world =
  modulePendingMap :: "ViteDevServer \<Rightarrow> ref list option"
  suspended :: "(ViteDevServer \<times> ref) list"
  trace :: "wire list"

definition init :: world where
  "init = \<lparr>modulePendingMap = (\<lambda>_. None), suspended = [], trace = []\<rparr>"

section \<open>moduleImport, the connection event and hotUpdate\<close>

text \<open>
  The \<^verbatim>\<open>Set\<close> stored for a server. The code creates the entry of a server once and
  never deletes or replaces it (\<^verbatim>\<open>clear()\<close> empties the same object), so the local
  \<^verbatim>\<open>sourceSet\<close> of a call, suspended or not, is the entry of its server.
\<close>

definition sourceSet :: "world \<Rightarrow> ViteDevServer \<Rightarrow> ref list" where
  "sourceSet w v = (case modulePendingMap w v of None \<Rightarrow> [] | Some xs \<Rightarrow> xs)"

definition has :: "world \<Rightarrow> ViteDevServer \<Rightarrow> ref \<Rightarrow> bool" where
  "has w v r = (r \<in> set (sourceSet w v))"

definition hot_send :: "ViteDevServer \<Rightarrow> HotUpdatePayload \<Rightarrow> world \<Rightarrow> world" where
  "hot_send v p w = w\<lparr>trace := trace w @ [Send v p]\<rparr>"

text \<open>
  Lines 147 to 155 of \<^verbatim>\<open>moduleImport\<close>: the part after the \<^verbatim>\<open>if (!sourceSet)\<close>
  block. It has no \<^verbatim>\<open>await\<close>, so it runs as one step.
\<close>

definition moduleImport_rest :: "ViteDevServer \<Rightarrow> ref \<Rightarrow> world \<Rightarrow> world" where
  "moduleImport_rest viteServer result w =
     (if has w viteServer result then w
      else hot_send viteServer (ModuleImport result)
             (w\<lparr>modulePendingMap :=
                  (modulePendingMap w)(viteServer \<mapsto> sourceSet w viteServer @ [result])\<rparr>))"

text \<open>
  A call of \<^verbatim>\<open>moduleImport\<close>, up to its first suspension point. With no entry for
  the server it creates the empty set and parks at the \<^verbatim>\<open>await\<close>; with an entry it
  runs to its end at once.
\<close>

definition moduleImport :: "ViteDevServer \<Rightarrow> ref \<Rightarrow> world \<Rightarrow> world" where
  "moduleImport viteServer result w =
     (case modulePendingMap w viteServer of
        None \<Rightarrow>
          w\<lparr>modulePendingMap := (modulePendingMap w)(viteServer \<mapsto> []),
            suspended := suspended w @ [(viteServer, result)]\<rparr>
      | Some _ \<Rightarrow> moduleImport_rest viteServer result w)"

text \<open>
  A \<^verbatim>\<open>'connection'\<close> event on the web socket server of \<open>v\<close>: every listener that
  \<^verbatim>\<open>waitForConnection\<close> registered resolves its promise, and the parked calls run
  their remaining lines in registration order, before any later event.
\<close>

fun resume :: "ViteDevServer \<Rightarrow> ref list \<Rightarrow> world \<Rightarrow> world" where
  "resume v [] w = w"
| "resume v (r # rs) w = resume v rs (moduleImport_rest v r w)"

definition connection :: "ViteDevServer \<Rightarrow> socket \<Rightarrow> world \<Rightarrow> world" where
  "connection v c w =
     resume v (map snd (filter (\<lambda>p. fst p = v) (suspended w)))
       (w\<lparr>suspended := filter (\<lambda>p. fst p \<noteq> v) (suspended w),
          trace := trace w @ [Connection v c]\<rparr>)"

definition clear :: "ViteDevServer \<Rightarrow> world \<Rightarrow> world" where
  "clear v w =
     (case modulePendingMap w v of
        None \<Rightarrow> w
      | Some _ \<Rightarrow> w\<lparr>modulePendingMap := (modulePendingMap w)(v \<mapsto> [])\<rparr>)"

fun hotUpdate :: "ViteDevServer \<Rightarrow> HotUpdatePayload \<Rightarrow> world \<Rightarrow> world" where
  "hotUpdate vite FullReload w = hot_send vite FullReload w"
| "hotUpdate vite RscReload w = hot_send vite RscReload (clear vite w)"
| "hotUpdate vite (ModuleImport r) w = moduleImport vite r w"
| "hotUpdate vite (HotImport p) w = w"

text \<open>
  A run of the module: calls of \<^verbatim>\<open>hotUpdate\<close> and connection events, in order.
  \<^verbatim>\<open>hotUpdate\<close> does not await \<^verbatim>\<open>moduleImport\<close>, so a call returns when
  \<^verbatim>\<open>moduleImport\<close> has finished or is parked.
\<close>

datatype event =
    HotUpdate ViteDevServer HotUpdatePayload
  | Connect ViteDevServer socket

fun step :: "event \<Rightarrow> world \<Rightarrow> world" where
  "step (HotUpdate v p) w = hotUpdate v p w"
| "step (Connect v c) w = connection v c w"

fun run :: "event list \<Rightarrow> world \<Rightarrow> world" where
  "run [] w = w"
| "run (e # es) w = run es (step e w)"

section \<open>generateInitialScripts\<close>

datatype InjectTo = Head | Body | HeadPrepend | BodyPrepend

record HtmlTagDescriptor =
  tag :: string
  attrs :: "(string \<times> string) list"
  children :: "string option"
  injectTo :: InjectTo

definition js_startsWith :: "string \<Rightarrow> string \<Rightarrow> bool" where
  "js_startsWith s p = (take (length p) s = p)"

definition js_endsWith :: "string \<Rightarrow> string \<Rightarrow> bool" where
  "js_endsWith s p = (length p \<le> length s \<and> drop (length s - length p) s = p)"

text \<open>
  The three object literals of \<^verbatim>\<open>generateInitialScripts\<close>. In the literal
  \<^verbatim>\<open>{ type: 'module', WAKU_ATTR_NAME: result.id }\<close> the key is not computed: the
  property is named \<^verbatim>\<open>WAKU_ATTR_NAME\<close>, whatever the constant of that name holds.
\<close>

definition blockingViteClient :: HtmlTagDescriptor where
  "blockingViteClient =
     \<lparr>tag = ''script'',
      attrs = [(''type'', ''module''), (''blocking'', ''render''), (''src'', ''/@vite/client'')],
      children = None,
      injectTo = HeadPrepend\<rparr>"

definition cssModuleScript :: "ModuleImportResult \<Rightarrow> HtmlTagDescriptor" where
  "cssModuleScript result =
     \<lparr>tag = ''script'',
      attrs = [(''type'', ''module''), (''WAKU_ATTR_NAME'', id' result)],
      children = Some (code result),
      injectTo = HeadPrepend\<rparr>"

definition styleTag :: "ModuleImportResult \<Rightarrow> HtmlTagDescriptor" where
  "styleTag result =
     \<lparr>tag = ''style'',
      attrs = [(''type'', ''text/css''), (''WAKU_ATTR_NAME'', id' result)],
      children = Some (source result),
      injectTo = Body\<rparr>"

definition isCssModule :: "ModuleImportResult \<Rightarrow> bool" where
  "isCssModule result = js_endsWith (id' result) ''.module.css''"

text \<open>
  The \<^verbatim>\<open>for (const result of sourceSet)\<close> loop; the state of the loop is the array
  \<^verbatim>\<open>scripts\<close> and the flag \<^verbatim>\<open>injectedBlockingViteClient\<close>.
\<close>

fun for_of :: "store \<Rightarrow> ref list \<Rightarrow> HtmlTagDescriptor list \<times> bool \<Rightarrow> HtmlTagDescriptor list \<times> bool" where
  "for_of h [] st = st"
| "for_of h (r # rs) (scripts, injectedBlockingViteClient) =
     (if isCssModule (h r) then
        (if \<not> injectedBlockingViteClient
         then for_of h rs (scripts @ [blockingViteClient] @ [cssModuleScript (h r)], True)
         else for_of h rs (scripts @ [cssModuleScript (h r)], injectedBlockingViteClient))
      else for_of h rs (scripts @ [styleTag (h r)], injectedBlockingViteClient))"

definition generateInitialScripts :: "store \<Rightarrow> world \<Rightarrow> ViteDevServer option \<Rightarrow> HtmlTagDescriptor list" where
  "generateInitialScripts h w viteServer =
     (case viteServer of
        None \<Rightarrow> []
      | Some v \<Rightarrow>
          (case modulePendingMap w v of
             None \<Rightarrow> []
           | Some xs \<Rightarrow> fst (for_of h xs ([], False))))"

section \<open>The rsc-reload handler of the injected client code\<close>

text \<open>
  \<^verbatim>\<open>injectingHmrCode\<close> runs in the browser. Its \<^verbatim>\<open>rsc-reload\<close> handler removes every
  element that \<^verbatim>\<open>document.querySelectorAll('[waku-module-id]')\<close> returns. An HTML
  parser lower-cases the ASCII letters of attribute names, and an attribute selector
  matches the lower-cased name; elements are the planner's descriptors once rendered.
\<close>

definition WAKU_ATTR_NAME :: string where
  "WAKU_ATTR_NAME = ''waku-module-id''"

definition ascii_lower :: "char \<Rightarrow> char" where
  "ascii_lower c =
     (let n = (of_char c :: nat) in if 65 \<le> n \<and> n \<le> 90 then char_of (n + 32) else c)"

definition ascii_lowercase :: "string \<Rightarrow> string" where
  "ascii_lowercase s = map ascii_lower s"

definition hasAttribute :: "string \<Rightarrow> HtmlTagDescriptor \<Rightarrow> bool" where
  "hasAttribute name e =
     (ascii_lowercase name \<in> set (map (\<lambda>kv. ascii_lowercase (fst kv)) (attrs e)))"

definition querySelectorAll_attr :: "string \<Rightarrow> HtmlTagDescriptor list \<Rightarrow> HtmlTagDescriptor list" where
  "querySelectorAll_attr name document = filter (hasAttribute name) document"

definition on_rsc_reload :: "HtmlTagDescriptor list \<Rightarrow> HtmlTagDescriptor list" where
  "on_rsc_reload document = filter (\<lambda>e. \<not> hasAttribute WAKU_ATTR_NAME e) document"

section \<open>The transform hook\<close>

text \<open>
  \<^verbatim>\<open>s.indexOf(p)\<close>: the position of the first occurrence, \<open>None\<close> for \<^verbatim>\<open>-1\<close>.
\<close>

fun js_indexOf :: "string \<Rightarrow> string \<Rightarrow> nat option" where
  "js_indexOf [] p = (if p = [] then Some 0 else None)"
| "js_indexOf (c # cs) p =
     (if take (length p) (c # cs) = p then Some 0
      else map_option Suc (js_indexOf cs p))"

text \<open>
  \<^verbatim>\<open>String.prototype.replace\<close> with a string pattern replaces the first occurrence and
  expands the dollar patterns of the replacement: \<^verbatim>\<open>$$\<close>, \<^verbatim>\<open>$&\<close>, the text before
  (dollar, backtick) and after (dollar, quote) the match. There are no capture groups,
  so every other dollar stands for itself.
\<close>

fun getSubstitution :: "string \<Rightarrow> string \<Rightarrow> string \<Rightarrow> string \<Rightarrow> string" where
  "getSubstitution m pre post [] = []"
| "getSubstitution m pre post [c] = [c]"
| "getSubstitution m pre post (c # d # r) =
     (if c = CHR ''$'' then
        (if d = CHR ''$'' then CHR ''$'' # getSubstitution m pre post r
         else if d = CHR ''&'' then m @ getSubstitution m pre post r
         else if d = CHR 0x60 then pre @ getSubstitution m pre post r
         else if d = CHR 0x27 then post @ getSubstitution m pre post r
         else c # getSubstitution m pre post (d # r))
      else c # getSubstitution m pre post (d # r))"

definition js_replace :: "string \<Rightarrow> string \<Rightarrow> string \<Rightarrow> string" where
  "js_replace s p replacement =
     (case js_indexOf s p of
        None \<Rightarrow> s
      | Some i \<Rightarrow>
          take i s
          @ getSubstitution p (take i s) (drop (i + length p) s) replacement
          @ drop (i + length p) s)"

definition unlines :: "string list \<Rightarrow> string" where
  "unlines ls = concat (map (\<lambda>l. l @ [CHR 0x0A]) ls)"

definition FETCH_RSC_LINE :: string where
  "FETCH_RSC_LINE =
     ''export const fetchRSC = (input, searchParamsString, setElements, cache = fetchCache)=>{''"

definition INNER_ROUTER_LINE :: string where
  "INNER_ROUTER_LINE = ''function InnerRouter() {''"

definition refetchRsc_hook :: string where
  "refetchRsc_hook = CHR 0x0A # unlines
     [''{'',
      ''  const refetchRsc = () => {'',
      ''    cache.splice(0);'',
      ''    const data = fetchRSC(input, searchParamsString, setElements, cache);'',
      ''    setElements(data);'',
      ''  };'',
      ''  globalThis.__WAKU_RSC_RELOAD_LISTENERS__ ||= [];'',
      ''  const index = globalThis.__WAKU_RSC_RELOAD_LISTENERS__.indexOf(globalThis.__WAKU_REFETCH_RSC__);'',
      ''  if (index !== -1) {'',
      ''    globalThis.__WAKU_RSC_RELOAD_LISTENERS__.splice(index, 1, refetchRsc);'',
      ''  } else {'',
      ''    globalThis.__WAKU_RSC_RELOAD_LISTENERS__.push(refetchRsc);'',
      ''  }'',
      ''  globalThis.__WAKU_REFETCH_RSC__ = refetchRsc;'',
      ''}'']"

definition refetchRoute_hook :: string where
  "refetchRoute_hook = CHR 0x0A # unlines
     [''{'',
      ''  const refetchRoute = () => {'',
      ''    const input = getInputString(loc.path);'',
      ''    refetch(input, loc.searchParams);'',
      ''  };'',
      ''  globalThis.__WAKU_RSC_RELOAD_LISTENERS__ ||= [];'',
      ''  const index = globalThis.__WAKU_RSC_RELOAD_LISTENERS__.indexOf(globalThis.__WAKU_REFETCH_ROUTE__);'',
      ''  if (index !== -1) {'',
      ''    globalThis.__WAKU_RSC_RELOAD_LISTENERS__.splice(index, 1, refetchRoute);'',
      ''  } else {'',
      ''    globalThis.__WAKU_RSC_RELOAD_LISTENERS__.unshift(refetchRoute);'',
      ''  }'',
      ''  globalThis.__WAKU_REFETCH_ROUTE__ = refetchRoute;'',
      ''}'']"

text \<open>
  The hook \<^verbatim>\<open>transform(code, id)\<close>. The two paths \<^verbatim>\<open>wakuClientDist\<close> and
  \<^verbatim>\<open>wakuRouterClientDist\<close> are computed from the location of the plugin's own file
  with helpers of \<^verbatim>\<open>../utils/path.js\<close>; they are parameters here. A module that is
  neither yields \<^verbatim>\<open>undefined\<close>, which is \<open>None\<close>.
\<close>

definition transform :: "string \<Rightarrow> string \<Rightarrow> string \<Rightarrow> string \<Rightarrow> string option" where
  "transform wakuClientDist wakuRouterClientDist code_in ident =
     (if js_startsWith ident wakuClientDist then
        Some (js_replace code_in FETCH_RSC_LINE (FETCH_RSC_LINE @ refetchRsc_hook))
      else if js_startsWith ident wakuRouterClientDist then
        Some (js_replace code_in INNER_ROUTER_LINE (INNER_ROUTER_LINE @ refetchRoute_hook))
      else None)"

section \<open>Observations on a run\<close>

text \<open>Connection events only, each a server and the socket that connected.\<close>

definition connects :: "(ViteDevServer \<times> socket) list \<Rightarrow> world \<Rightarrow> world" where
  "connects cs w = run (map (\<lambda>p. Connect (fst p) (snd p)) cs) w"

fun is_connection :: "ViteDevServer \<Rightarrow> wire \<Rightarrow> bool" where
  "is_connection v (Connection v' c) = (v' = v)"
| "is_connection v (Send v' p) = False"

text \<open>The artifacts of the \<^verbatim>\<open>module-import\<close> events sent on a server, in order.\<close>

fun module_imports :: "ViteDevServer \<Rightarrow> wire list \<Rightarrow> ref list" where
  "module_imports v [] = []"
| "module_imports v (Send v' (ModuleImport r) # tr) =
     (if v' = v then r # module_imports v tr else module_imports v tr)"
| "module_imports v (x # tr) = module_imports v tr"

definition before_first_connection :: "ViteDevServer \<Rightarrow> wire list \<Rightarrow> wire list" where
  "before_first_connection v tr = takeWhile (\<lambda>x. \<not> is_connection v x) tr"

definition after_first_connection :: "ViteDevServer \<Rightarrow> wire list \<Rightarrow> wire list" where
  "after_first_connection v tr = dropWhile (\<lambda>x. \<not> is_connection v x) tr"

text \<open>The artifacts sent on a server since its last \<^verbatim>\<open>rsc-reload\<close>.\<close>

definition imports_since_reload :: "ViteDevServer \<Rightarrow> wire list \<Rightarrow> ref list" where
  "imports_since_reload v tr =
     module_imports v (rev (takeWhile (\<lambda>x. x \<noteq> Send v RscReload) (rev tr)))"

text \<open>
  \<^verbatim>\<open>vite.hot.send\<close> broadcasts to the sockets that are connected when it is called:
  a socket receives what is sent on its server after its connection event.
\<close>

definition received :: "ViteDevServer \<Rightarrow> socket \<Rightarrow> wire list \<Rightarrow> wire list" where
  "received v c tr = filter (\<lambda>x. \<not> is_connection v x) (dropWhile (\<lambda>x. x \<noteq> Connection v c) tr)"

fun is_connect :: "ViteDevServer \<Rightarrow> event \<Rightarrow> bool" where
  "is_connect v (Connect v' c) = (v' = v)"
| "is_connect v (HotUpdate v' p) = False"

text \<open>How often the \<^verbatim>\<open>module-import\<close> event of an artifact was sent on a server.\<close>

definition sends_of :: "ViteDevServer \<Rightarrow> ref \<Rightarrow> world \<Rightarrow> nat" where
  "sends_of v a w = count_list (trace w) (Send v (ModuleImport a))"

text \<open>
  Two stages of an artifact on a server, relative to a count \<open>n\<close> of earlier sends:
  recorded once and sent once more than \<open>n\<close> times; or not recorded yet and sent
  \<open>n\<close> times.
\<close>

definition recorded_once :: "ViteDevServer \<Rightarrow> ref \<Rightarrow> nat \<Rightarrow> world \<Rightarrow> bool" where
  "recorded_once v a n w =
     (has w v a \<and> sends_of v a w = Suc n \<and> count_list (sourceSet w v) a = 1)"

definition at_most_once :: "ViteDevServer \<Rightarrow> ref \<Rightarrow> nat \<Rightarrow> world \<Rightarrow> bool" where
  "at_most_once v a n w =
     ((\<not> has w v a \<and> sends_of v a w = n) \<or> recorded_once v a n w)"

text \<open>
  The invariant of the reachable states: a parked call belongs to a server that has
  its entry in the map; the set of a server lists, in order and without repetition,
  the artifacts sent on it since its last \<^verbatim>\<open>rsc-reload\<close>; a server on which a
  \<^verbatim>\<open>module-import\<close> was sent has its entry.
\<close>

definition parked_ok :: "world \<Rightarrow> bool" where
  "parked_ok w = (\<forall>p \<in> set (suspended w). modulePendingMap w (fst p) \<noteq> None)"

definition registry_matches_trace :: "world \<Rightarrow> bool" where
  "registry_matches_trace w =
     (\<forall>v. imports_since_reload v (trace w) = sourceSet w v \<and> distinct (sourceSet w v))"

definition sent_has_entry :: "world \<Rightarrow> bool" where
  "sent_has_entry w =
     (\<forall>v a. Send v (ModuleImport a) \<in> set (trace w) \<longrightarrow> modulePendingMap w v \<noteq> None)"

definition invariant :: "world \<Rightarrow> bool" where
  "invariant w = (parked_ok w \<and> registry_matches_trace w \<and> sent_has_entry w)"

section \<open>Example data\<close>

text \<open>
  A store with a CSS module at address 11 and a plain stylesheet at every other
  address, and four runs on server 0: one artifact delivered and a socket connected;
  a second artifact delivered after that; two artifacts delivered with no socket
  connected; the same followed by the first connection.
\<close>

definition h0 :: store where
  "h0 r = (if r = 11
           then \<lparr>id' = ''/src/app.module.css'', code = ''import \"/@vite/client\"'',
                 source = [], css = Some True\<rparr>
           else \<lparr>id' = ''/src/base.css'', code = ''export default {}'',
                 source = ''body { margin: 0 }'', css = Some True\<rparr>)"

definition w1 :: world where
  "w1 = run [HotUpdate 0 (ModuleImport 11), Connect 0 7] init"

definition w2 :: world where
  "w2 = run [HotUpdate 0 (ModuleImport 11), Connect 0 7, HotUpdate 0 (ModuleImport 12)] init"

definition w_early :: world where
  "w_early = run [HotUpdate 0 (ModuleImport 11), HotUpdate 0 (ModuleImport 12)] init"

definition w_replay :: world where
  "w_replay =
     run [HotUpdate 0 (ModuleImport 11), HotUpdate 0 (ModuleImport 12), Connect 0 7] init"

section \<open>Facts about the transform hook\<close>

lemma js_indexOf_None:
  "js_indexOf s p = None \<longleftrightarrow> \<not> (\<exists>pre post. s = pre @ p @ post)"
proof (induction s)
  case Nil
  show ?case by auto
next
  case (Cons c cs)
  show ?case
  proof (cases "take (length p) (c # cs) = p")
    case True
    then have "c # cs = [] @ p @ drop (length p) (c # cs)"
      by (metis append_Nil append_take_drop_id)
    then have "\<exists>pre post. c # cs = pre @ p @ post" by blast
    with True show ?thesis by simp
  next
    case False
    have "(\<exists>pre post. c # cs = pre @ p @ post) \<longleftrightarrow> (\<exists>pre post. cs = pre @ p @ post)"
    proof
      assume "\<exists>pre post. c # cs = pre @ p @ post"
      then obtain pre post where e: "c # cs = pre @ p @ post" by blast
      show "\<exists>pre post. cs = pre @ p @ post"
      proof (cases pre)
        case Nil
        with e have "take (length p) (c # cs) = p" by simp
        with False show ?thesis by simp
      next
        case (Cons a pre')
        with e have "cs = pre' @ p @ post" by simp
        then show ?thesis by blast
      qed
    next
      assume "\<exists>pre post. cs = pre @ p @ post"
      then obtain pre post where "cs = pre @ p @ post" by blast
      then have "c # cs = (c # pre) @ p @ post" by simp
      then show "\<exists>pre post. c # cs = pre @ p @ post" by blast
    qed
    with False Cons.IH show ?thesis by simp
  qed
qed

lemma js_replace_absent:
  "\<not> (\<exists>pre post. s = pre @ p @ post) \<Longrightarrow> js_replace s p r = s"
  using js_indexOf_None [of s p] by (simp add: js_replace_def)

lemma getSubstitution_plain:
  "CHR ''$'' \<notin> set t \<Longrightarrow> getSubstitution m pre post t = t"
  by (induction m pre post t rule: getSubstitution.induct) auto

lemma hooks_plain:
  "CHR ''$'' \<notin> set (FETCH_RSC_LINE @ refetchRsc_hook)"
  "CHR ''$'' \<notin> set (INNER_ROUTER_LINE @ refetchRoute_hook)"
  by (simp_all add: FETCH_RSC_LINE_def refetchRsc_hook_def INNER_ROUTER_LINE_def refetchRoute_hook_def unlines_def)

text \<open>
  When the marker occurs, its first occurrence is followed by the hook and the rest
  of the code is kept: neither replacement contains a dollar pattern.
\<close>

lemma js_indexOf_Some:
  "js_indexOf s p = Some i \<Longrightarrow> s = take i s @ p @ drop (i + length p) s"
proof (induction s arbitrary: i)
  case Nil
  then show ?case by (simp split: if_splits)
next
  case (Cons c cs)
  show ?case
  proof (cases "take (length p) (c # cs) = p")
    case True
    with Cons.prems have "i = 0" by simp
    with True show ?thesis by (metis add_0 append_Nil append_take_drop_id take_0)
  next
    case False
    with Cons.prems obtain j where j: "js_indexOf cs p = Some j" "i = Suc j" by auto
    from Cons.IH [OF j(1)] j(2) show ?thesis by simp
  qed
qed

lemma transform_marker_present:
  "js_indexOf code_in FETCH_RSC_LINE = Some i \<Longrightarrow> js_startsWith ident wakuClientDist \<Longrightarrow>
   transform wakuClientDist wakuRouterClientDist code_in ident =
     Some (take i code_in @ FETCH_RSC_LINE @ refetchRsc_hook
           @ drop (i + length FETCH_RSC_LINE) code_in)"
  by (simp add: transform_def js_replace_def getSubstitution_plain [OF hooks_plain(1)])

text \<open>
  Claim C9. For each of the two targeted modules (an id that starts with
  \<^verbatim>\<open>wakuClientDist\<close>; an id that does not and starts with \<^verbatim>\<open>wakuRouterClientDist\<close>),
  when the module's marker does not occur in the code, \<^verbatim>\<open>transform\<close> returns the
  code as it came, and returns it as a value: there is no error.
\<close>

theorem transform_marker_absent:
  "(js_startsWith ident wakuClientDist \<longrightarrow>
      \<not> (\<exists>pre post. code_in = pre @ FETCH_RSC_LINE @ post) \<longrightarrow>
      transform wakuClientDist wakuRouterClientDist code_in ident = Some code_in)
   \<and> (\<not> js_startsWith ident wakuClientDist \<longrightarrow>
      js_startsWith ident wakuRouterClientDist \<longrightarrow>
      \<not> (\<exists>pre post. code_in = pre @ INNER_ROUTER_LINE @ post) \<longrightarrow>
      transform wakuClientDist wakuRouterClientDist code_in ident = Some code_in)"
  by (simp add: transform_def js_replace_absent)

lemma idx1: "js_indexOf ''let x = 1;'' FETCH_RSC_LINE = None"
  by (simp add: FETCH_RSC_LINE_def)
lemma idx2: "js_indexOf ''let x = 1;'' INNER_ROUTER_LINE = None"
  by (simp add: INNER_ROUTER_LINE_def)

theorem transform_marker_absent_witness:
  "js_startsWith ''/waku/dist/client.js'' ''/waku/dist/client.js''
   \<and> \<not> (\<exists>pre post. ''let x = 1;'' = pre @ FETCH_RSC_LINE @ post)
   \<and> transform ''/waku/dist/client.js'' ''/waku/dist/router/client.js'' ''let x = 1;''
        ''/waku/dist/client.js'' = Some ''let x = 1;''
   \<and> \<not> js_startsWith ''/waku/dist/router/client.js'' ''/waku/dist/client.js''
   \<and> js_startsWith ''/waku/dist/router/client.js'' ''/waku/dist/router/client.js''
   \<and> \<not> (\<exists>pre post. ''let x = 1;'' = pre @ INNER_ROUTER_LINE @ post)
   \<and> transform ''/waku/dist/client.js'' ''/waku/dist/router/client.js'' ''let x = 1;''
        ''/waku/dist/router/client.js'' = Some ''let x = 1;''"
proof -
  have a: "js_startsWith ''/waku/dist/client.js'' ''/waku/dist/client.js''"
    by (simp add: js_startsWith_def)
  have b: "\<not> (\<exists>pre post. ''let x = 1;'' = pre @ FETCH_RSC_LINE @ post)"
    using js_indexOf_None [of "''let x = 1;''" FETCH_RSC_LINE] idx1 by simp
  have c: "\<not> js_startsWith ''/waku/dist/router/client.js'' ''/waku/dist/client.js''"
    by (simp add: js_startsWith_def)
  have d: "js_startsWith ''/waku/dist/router/client.js'' ''/waku/dist/router/client.js''"
    by (simp add: js_startsWith_def)
  have e: "\<not> (\<exists>pre post. ''let x = 1;'' = pre @ INNER_ROUTER_LINE @ post)"
    using js_indexOf_None [of "''let x = 1;''" INNER_ROUTER_LINE] idx2 by simp
  from a b c d e
    transform_marker_absent [of "''/waku/dist/client.js''" "''/waku/dist/client.js''" "''let x = 1;''" "''/waku/dist/router/client.js''"]
    transform_marker_absent [of "''/waku/dist/router/client.js''" "''/waku/dist/client.js''" "''let x = 1;''" "''/waku/dist/router/client.js''"]
  show ?thesis by blast
qed

section \<open>Facts about hotUpdate\<close>

text \<open>
  Claim C8, evaluated on the code. \<^verbatim>\<open>hotUpdate\<close> has a branch for \<^verbatim>\<open>full-reload\<close>,
  \<^verbatim>\<open>rsc-reload\<close> and \<^verbatim>\<open>module-import\<close> and none for \<^verbatim>\<open>hot-import\<close>: with a socket
  connected, a \<^verbatim>\<open>hot-import\<close> payload leaves the transport as it was, while a
  \<^verbatim>\<open>full-reload\<close> payload is sent.
\<close>

theorem hotUpdate_hot_import_dropped:
  "trace (run [Connect 0 7, HotUpdate 0 (HotImport ''/src/App.tsx'')] init) = [Connection 0 7]
   \<and> trace (run [Connect 0 7, HotUpdate 0 FullReload] init) = [Connection 0 7, Send 0 FullReload]
   \<and> hotUpdate v (HotImport path) w = w"
  by (simp add: init_def connection_def hot_send_def)

section \<open>Facts about the registry and the connection event\<close>

lemmas eval_defs = init_def moduleImport_def connection_def moduleImport_rest_def
  has_def sourceSet_def hot_send_def

lemma w1_eval:
  "modulePendingMap w1 0 = Some [11]"
  "trace w1 = [Connection 0 7, Send 0 (ModuleImport 11)]"
  "suspended w1 = []"
  by (simp_all add: w1_def eval_defs)

lemma w2_eval:
  "modulePendingMap w2 0 = Some [11, 12]"
  "trace w2 = [Connection 0 7, Send 0 (ModuleImport 11), Send 0 (ModuleImport 12)]"
  "suspended w2 = []"
  by (simp_all add: w2_def eval_defs)

lemma w_early_eval:
  "modulePendingMap w_early 0 = Some [12]"
  "trace w_early = [Send 0 (ModuleImport 12)]"
  "suspended w_early = [(0, 11)]"
  by (simp_all add: w_early_def eval_defs)

lemma w_replay_eval:
  "modulePendingMap w_replay 0 = Some [12, 11]"
  "trace w_replay = [Send 0 (ModuleImport 12), Connection 0 7, Send 0 (ModuleImport 11)]"
  "suspended w_replay = []"
  by (simp_all add: w_replay_def eval_defs)

subsection \<open>The lines after the suspension point\<close>

lemma sourceSet_rest:
  "sourceSet (moduleImport_rest v r w) v' =
     (if v' = v \<and> \<not> has w v r then sourceSet w v @ [r] else sourceSet w v')"
  by (simp add: moduleImport_rest_def hot_send_def sourceSet_def)

lemma trace_rest:
  "trace (moduleImport_rest v r w) =
     (if has w v r then trace w else trace w @ [Send v (ModuleImport r)])"
  by (simp add: moduleImport_rest_def hot_send_def)

lemma suspended_rest: "suspended (moduleImport_rest v r w) = suspended w"
  by (simp add: moduleImport_rest_def hot_send_def)

lemma entry_rest:
  "modulePendingMap w v' \<noteq> None \<Longrightarrow> modulePendingMap (moduleImport_rest v r w) v' \<noteq> None"
  by (simp add: moduleImport_rest_def hot_send_def)

lemma entry_rest_other:
  "v' \<noteq> v \<Longrightarrow> modulePendingMap (moduleImport_rest v r w) v' = modulePendingMap w v'"
  by (simp add: moduleImport_rest_def hot_send_def)

lemma entry_rest_self:
  "\<not> has w v r \<Longrightarrow> modulePendingMap (moduleImport_rest v r w) v = Some (sourceSet w v @ [r])"
  by (simp add: moduleImport_rest_def hot_send_def)

lemma rest_noop: "has w v r \<Longrightarrow> moduleImport_rest v r w = w"
  by (simp add: moduleImport_rest_def)

lemma has_rest:
  "has (moduleImport_rest v r w) v' a \<longleftrightarrow> has w v' a \<or> (v' = v \<and> a = r)"
  by (auto simp: has_def sourceSet_rest)

lemma has_entry: "has w v a \<Longrightarrow> modulePendingMap w v \<noteq> None"
  by (cases "modulePendingMap w v") (auto simp: has_def sourceSet_def)

lemma moduleImport_noop: "has w v r \<Longrightarrow> moduleImport v r w = w"
  using has_entry [of w v r] by (auto simp: moduleImport_def rest_noop)

lemma moduleImport_entry:
  "modulePendingMap w v = Some xs \<Longrightarrow> moduleImport v r w = moduleImport_rest v r w"
  by (simp add: moduleImport_def)

subsection \<open>Resumption at a connection event\<close>

lemma suspended_resume: "suspended (resume v rs w) = suspended w"
  by (induction rs arbitrary: w) (simp_all add: suspended_rest)

lemma entry_resume:
  "modulePendingMap w v' \<noteq> None \<Longrightarrow> modulePendingMap (resume v rs w) v' \<noteq> None"
  by (induction rs arbitrary: w) (simp_all add: entry_rest del: not_None_eq)

lemma entry_resume_other:
  "v' \<noteq> v \<Longrightarrow> modulePendingMap (resume v rs w) v' = modulePendingMap w v'"
  by (induction rs arbitrary: w) (simp_all add: entry_rest_other)

lemma has_resume: "has (resume v rs w) v' a \<longleftrightarrow> has w v' a \<or> (v' = v \<and> a \<in> set rs)"
  by (induction rs arbitrary: w) (auto simp: has_rest)

lemma resume_noop: "\<forall>r \<in> set rs. has w v r \<Longrightarrow> resume v rs w = w"
  by (induction rs arbitrary: w) (simp_all add: rest_noop)

lemma suspended_connection:
  "suspended (connection v c w) = filter (\<lambda>p. fst p \<noteq> v) (suspended w)"
  by (simp add: connection_def suspended_resume)

lemma entry_connection:
  "modulePendingMap w v' \<noteq> None \<Longrightarrow> modulePendingMap (connection v c w) v' \<noteq> None"
  by (simp add: connection_def entry_resume del: not_None_eq)

lemma has_connection: "has w v' a \<Longrightarrow> has (connection v c w) v' a"
  by (simp add: connection_def has_resume) (simp add: has_def sourceSet_def)

subsection \<open>The invariant of the reachable states\<close>

lemma module_imports_append:
  "module_imports v (xs @ ys) = module_imports v xs @ module_imports v ys"
  by (induction v xs rule: module_imports.induct) simp_all

lemma imports_since_reload_snoc:
  "imports_since_reload v (tr @ [x]) =
     (if x = Send v RscReload then [] else imports_since_reload v tr @ module_imports v [x])"
  by (simp add: imports_since_reload_def module_imports_append)

lemma sourceSet_cong:
  "modulePendingMap w' = modulePendingMap w \<Longrightarrow> sourceSet w' v = sourceSet w v"
  by (simp add: sourceSet_def)

lemma parked_ok_rest: "parked_ok w \<Longrightarrow> parked_ok (moduleImport_rest v r w)"
  by (simp add: parked_ok_def suspended_rest entry_rest del: not_None_eq)

lemma matches_rest: "registry_matches_trace w \<Longrightarrow> registry_matches_trace (moduleImport_rest v r w)"
  by (auto simp: registry_matches_trace_def sourceSet_rest trace_rest imports_since_reload_snoc has_def)

lemma sent_rest: "sent_has_entry w \<Longrightarrow> sent_has_entry (moduleImport_rest v r w)"
  unfolding sent_has_entry_def
proof (intro allI impI)
  fix v' a
  assume h: "\<forall>v a. Send v (ModuleImport a) \<in> set (trace w) \<longrightarrow> modulePendingMap w v \<noteq> None"
    and s: "Send v' (ModuleImport a) \<in> set (trace (moduleImport_rest v r w))"
  show "modulePendingMap (moduleImport_rest v r w) v' \<noteq> None"
  proof (cases "Send v' (ModuleImport a) \<in> set (trace w)")
    case True
    with h have "modulePendingMap w v' \<noteq> None" by blast
    then show ?thesis by (rule entry_rest)
  next
    case False
    with s have "\<not> has w v r" "v' = v" by (auto simp: trace_rest split: if_splits)
    then show ?thesis by (simp add: entry_rest_self)
  qed
qed

lemma invariant_rest: "invariant w \<Longrightarrow> invariant (moduleImport_rest v r w)"
  by (simp add: invariant_def parked_ok_rest matches_rest sent_rest)

lemma invariant_resume: "invariant w \<Longrightarrow> invariant (resume v rs w)"
  by (induction rs arbitrary: w) (simp_all add: invariant_rest)

lemma invariant_connection_start:
  "invariant w \<Longrightarrow>
   invariant (w\<lparr>suspended := filter P (suspended w), trace := trace w @ [Connection v c]\<rparr>)"
  by (auto simp: invariant_def parked_ok_def registry_matches_trace_def sent_has_entry_def
      imports_since_reload_snoc sourceSet_def)

lemma invariant_connection: "invariant w \<Longrightarrow> invariant (connection v c w)"
  by (simp add: connection_def invariant_resume invariant_connection_start)

lemma invariant_park:
  "modulePendingMap w v = None \<Longrightarrow> invariant w \<Longrightarrow>
   invariant (w\<lparr>modulePendingMap := (modulePendingMap w)(v \<mapsto> []),
                suspended := suspended w @ [(v, r)]\<rparr>)"
  by (auto simp: invariant_def parked_ok_def registry_matches_trace_def sent_has_entry_def
      sourceSet_def)

lemma invariant_moduleImport: "invariant w \<Longrightarrow> invariant (moduleImport v r w)"
  by (cases "modulePendingMap w v") (simp_all add: moduleImport_def invariant_park invariant_rest)

lemma invariant_full_reload: "invariant w \<Longrightarrow> invariant (hot_send v FullReload w)"
  by (auto simp: invariant_def parked_ok_def registry_matches_trace_def sent_has_entry_def
      imports_since_reload_snoc sourceSet_def hot_send_def)

lemma invariant_rsc_reload: "invariant w \<Longrightarrow> invariant (hot_send v RscReload (clear v w))"
  by (cases "modulePendingMap w v")
    (auto simp: invariant_def parked_ok_def registry_matches_trace_def sent_has_entry_def
      imports_since_reload_snoc sourceSet_def hot_send_def clear_def)

lemma invariant_hotUpdate: "invariant w \<Longrightarrow> invariant (hotUpdate v p w)"
  by (cases p)
    (simp_all add: invariant_moduleImport invariant_full_reload invariant_rsc_reload)

lemma invariant_step: "invariant w \<Longrightarrow> invariant (step e w)"
  by (cases e) (simp_all add: invariant_hotUpdate invariant_connection)

lemma invariant_run: "invariant w \<Longrightarrow> invariant (run es w)"
  by (induction es arbitrary: w) (simp_all add: invariant_step)

lemma invariant_init: "invariant init"
  by (simp add: invariant_def parked_ok_def registry_matches_trace_def sent_has_entry_def
      init_def sourceSet_def imports_since_reload_def)

lemma invariant_reachable: "invariant (run es init)"
  by (simp add: invariant_run invariant_init)

lemma run_append: "run (es @ es') w = run es' (run es w)"
  by (induction es arbitrary: w) simp_all

subsection \<open>rsc-reload\<close>

lemma trace_rsc_reload: "trace (hotUpdate v RscReload w) = trace w @ [Send v RscReload]"
  by (cases "modulePendingMap w v") (simp_all add: hot_send_def clear_def)

lemma has_rsc_reload: "\<not> has (hotUpdate v RscReload w) v b"
  by (cases "modulePendingMap w v") (simp_all add: has_def sourceSet_def hot_send_def clear_def)

lemma sourceSet_rsc_reload: "sourceSet (hotUpdate v RscReload w) v = []"
  by (cases "modulePendingMap w v") (simp_all add: sourceSet_def hot_send_def clear_def)

lemma entry_rsc_reload:
  "modulePendingMap w v \<noteq> None \<Longrightarrow> modulePendingMap (hotUpdate v RscReload w) v = Some []"
  by (cases "modulePendingMap w v") (simp_all add: hot_send_def clear_def)

text \<open>
  Claim C4. In a reachable state in which the \<^verbatim>\<open>module-import\<close> event of an
  artifact was sent on a server, \<^verbatim>\<open>hotUpdate\<close> with \<^verbatim>\<open>rsc-reload\<close> sends the event
  and, in the same step, leaves no artifact recorded for that server: \<open>has\<close> is false
  for every artifact, whichever socket asks, since \<open>has\<close> has no socket argument.
  Delivering the artifact again sends a new \<^verbatim>\<open>module-import\<close> event at once and
  records it again.
\<close>

theorem rsc_reload_clears:
  "Send v (ModuleImport a) \<in> set (trace (run es init)) \<longrightarrow>
     trace (hotUpdate v RscReload (run es init)) = trace (run es init) @ [Send v RscReload]
     \<and> (\<forall>b. \<not> has (hotUpdate v RscReload (run es init)) v b)
     \<and> trace (moduleImport v a (hotUpdate v RscReload (run es init)))
         = trace (run es init) @ [Send v RscReload, Send v (ModuleImport a)]
     \<and> has (moduleImport v a (hotUpdate v RscReload (run es init))) v a"
proof
  let ?w = "run es init"
  let ?w' = "hotUpdate v RscReload ?w"
  assume s: "Send v (ModuleImport a) \<in> set (trace ?w)"
  have "sent_has_entry ?w" using invariant_reachable [of es] by (simp add: invariant_def)
  with s have e: "modulePendingMap ?w v \<noteq> None" unfolding sent_has_entry_def by blast
  have m: "moduleImport v a ?w' = moduleImport_rest v a ?w'"
    using entry_rsc_reload [OF e] by (rule moduleImport_entry)
  have t: "trace (moduleImport v a ?w') = trace ?w @ [Send v RscReload, Send v (ModuleImport a)]"
    unfolding m by (simp add: trace_rest has_rsc_reload trace_rsc_reload del: hotUpdate.simps)
  have h: "has (moduleImport v a ?w') v a"
    unfolding m by (simp add: has_rest del: hotUpdate.simps)
  show "trace ?w' = trace ?w @ [Send v RscReload]
     \<and> (\<forall>b. \<not> has ?w' v b)
     \<and> trace (moduleImport v a ?w') = trace ?w @ [Send v RscReload, Send v (ModuleImport a)]
     \<and> has (moduleImport v a ?w') v a"
    using t h trace_rsc_reload [of v ?w] has_rsc_reload [of v ?w] by blast
qed

theorem rsc_reload_clears_witness:
  "Send 0 (ModuleImport 11) \<in> set (trace w1)
   \<and> trace (hotUpdate 0 RscReload w1)
       = [Connection 0 7, Send 0 (ModuleImport 11), Send 0 RscReload]
   \<and> \<not> has (hotUpdate 0 RscReload w1) 0 11
   \<and> trace (moduleImport 0 11 (hotUpdate 0 RscReload w1))
       = [Connection 0 7, Send 0 (ModuleImport 11), Send 0 RscReload, Send 0 (ModuleImport 11)]
   \<and> has (moduleImport 0 11 (hotUpdate 0 RscReload w1)) 0 11"
proof -
  have s: "Send 0 (ModuleImport 11) \<in> set (trace w1)" by (simp add: w1_eval)
  from rsc_reload_clears [of 0 11 "[HotUpdate 0 (ModuleImport 11), Connect 0 7]", folded w1_def] s
  show ?thesis by (simp add: w1_eval del: hotUpdate.simps)
qed

subsection \<open>What the deduplication compares\<close>

text \<open>
  Claim C7, as amended. The set holds object references and \<^verbatim>\<open>sourceSet.has(result)\<close>
  compares references; \<^verbatim>\<open>moduleImport\<close> never reads the \<^verbatim>\<open>id\<close> of an artifact.
  Delivering the same object again changes nothing. Delivering another object that
  is not recorded sends its \<^verbatim>\<open>module-import\<close> event and records it, also when its
  \<^verbatim>\<open>id\<close> equals the \<^verbatim>\<open>id\<close> of a recorded artifact.
\<close>

theorem dedup_by_reference:
  "(has w v a \<longrightarrow> moduleImport v a w = w)
   \<and> (id' (h a) = id' (h a') \<longrightarrow> has w v a \<longrightarrow> \<not> has w v a' \<longrightarrow>
       trace (moduleImport v a' w) = trace w @ [Send v (ModuleImport a')]
       \<and> sourceSet (moduleImport v a' w) v = sourceSet w v @ [a'])"
proof -
  have "trace (moduleImport v a' w) = trace w @ [Send v (ModuleImport a')]
       \<and> sourceSet (moduleImport v a' w) v = sourceSet w v @ [a']"
    if "has w v a" "\<not> has w v a'"
  proof -
    from has_entry [OF that(1)] obtain xs where "modulePendingMap w v = Some xs" by blast
    then have "moduleImport v a' w = moduleImport_rest v a' w" by (rule moduleImport_entry)
    with that(2) show ?thesis by (simp add: trace_rest sourceSet_rest)
  qed
  then show ?thesis by (simp add: moduleImport_noop)
qed

lemma h0_ids: "id' (h0 12) = id' (h0 13)" by (simp add: h0_def)

lemma w2_has: "has w2 0 12" "\<not> has w2 0 13" "has w2 0 11"
  by (simp_all add: has_def sourceSet_def w2_eval)

theorem dedup_by_reference_witness:
  "has w2 0 12 \<and> moduleImport 0 12 w2 = w2
   \<and> id' (h0 12) = id' (h0 13) \<and> \<not> has w2 0 13
   \<and> trace (moduleImport 0 13 w2) = trace w2 @ [Send 0 (ModuleImport 13)]
   \<and> sourceSet (moduleImport 0 13 w2) 0 = sourceSet w2 0 @ [13]"
  using dedup_by_reference [of w2 0 12 h0 13] h0_ids w2_has by simp

text \<open>
  Claim C7 as stated fails: the artifacts at 12 and 13 have the same \<^verbatim>\<open>id\<close>, 12 is
  recorded for server 0, and delivering 13 sends an event and adds a record.
\<close>

theorem dedup_by_id_counterexample:
  "id' (h0 12) = id' (h0 13) \<and> has w2 0 12
   \<and> moduleImport 0 13 w2 \<noteq> w2
   \<and> trace (moduleImport 0 13 w2)
       = [Connection 0 7, Send 0 (ModuleImport 11), Send 0 (ModuleImport 12), Send 0 (ModuleImport 13)]
   \<and> sourceSet (moduleImport 0 13 w2) 0 = [11, 12, 13]"
proof -
  have m: "moduleImport 0 13 w2 = moduleImport_rest 0 13 w2"
    by (rule moduleImport_entry) (rule w2_eval(1))
  have t: "trace (moduleImport 0 13 w2)
       = [Connection 0 7, Send 0 (ModuleImport 11), Send 0 (ModuleImport 12), Send 0 (ModuleImport 13)]"
    using w2_has by (simp add: m trace_rest w2_eval)
  have s: "sourceSet (moduleImport 0 13 w2) 0 = [11, 12, 13]"
    using w2_has by (simp add: m sourceSet_rest) (simp add: sourceSet_def w2_eval)
  have "trace (moduleImport 0 13 w2) \<noteq> trace w2" by (simp add: t w2_eval)
  then have "moduleImport 0 13 w2 \<noteq> w2" by auto
  with t s h0_ids w2_has show ?thesis by simp
qed

subsection \<open>Connection events only\<close>

lemma connects_Nil: "connects [] w = w"
  by (simp add: connects_def)

lemma connects_Cons: "connects (p # cs) w = connects cs (connection (fst p) (snd p) w)"
  by (simp add: connects_def)

lemma has_connects: "has w v a \<Longrightarrow> has (connects cs w) v a"
  by (induction cs arbitrary: w) (simp_all add: connects_Nil connects_Cons has_connection)

lemma entry_connects:
  "modulePendingMap w v \<noteq> None \<Longrightarrow> modulePendingMap (connects cs w) v \<noteq> None"
  by (induction cs arbitrary: w)
    (simp_all add: connects_Nil connects_Cons entry_connection del: not_None_eq)

subsection \<open>One set per server\<close>

lemma trace_resume:
  "\<exists>ys. trace (resume v rs w) = trace w @ ys
        \<and> (\<forall>x \<in> set ys. \<exists>r. x = Send v (ModuleImport r) \<and> \<not> has w v r)"
proof (induction rs arbitrary: w)
  case Nil
  show ?case by simp
next
  case (Cons r rs)
  let ?w1 = "moduleImport_rest v r w"
  from Cons.IH [of ?w1] obtain ys where
    ys: "trace (resume v rs ?w1) = trace ?w1 @ ys"
      "\<forall>x \<in> set ys. \<exists>r'. x = Send v (ModuleImport r') \<and> \<not> has ?w1 v r'"
    by blast
  from ys(2) have ys': "\<forall>x \<in> set ys. \<exists>r'. x = Send v (ModuleImport r') \<and> \<not> has w v r'"
    by (auto simp: has_rest)
  show ?case
  proof (cases "has w v r")
    case True
    with ys(1) ys' show ?thesis by (auto simp: trace_rest)
  next
    case False
    with ys(1) have "trace (resume v (r # rs) w) = trace w @ (Send v (ModuleImport r) # ys)"
      by (simp add: trace_rest)
    moreover from False ys'
    have "\<forall>x \<in> set (Send v (ModuleImport r) # ys). \<exists>r'. x = Send v (ModuleImport r') \<and> \<not> has w v r'"
      by simp
    ultimately show ?thesis by blast
  qed
qed

lemma trace_connection:
  "\<exists>ys. trace (connection v c w) = trace w @ Connection v c # ys
        \<and> (\<forall>x \<in> set ys. \<exists>r. x = Send v (ModuleImport r) \<and> \<not> has w v r)"
proof -
  let ?w0 = "w\<lparr>suspended := filter (\<lambda>p. fst p \<noteq> v) (suspended w),
              trace := trace w @ [Connection v c]\<rparr>"
  have h: "has ?w0 v r = has w v r" for r by (simp add: has_def sourceSet_def)
  from trace_resume [of v "map snd (filter (\<lambda>p. fst p = v) (suspended w))" ?w0]
  show ?thesis by (simp add: connection_def h)
qed

lemma received_new_socket:
  assumes "Connection v c \<notin> set tr"
    and "\<forall>x \<in> set ys. \<exists>r. x = Send v (ModuleImport r) \<and> P r"
  shows "received v c (tr @ Connection v c # ys) = ys"
proof -
  have 1: "dropWhile (\<lambda>x. x \<noteq> Connection v c) (tr @ Connection v c # ys) = Connection v c # ys"
    using assms(1) by (induction tr) auto
  have 2: "filter (\<lambda>x. \<not> is_connection v x) ys = ys"
    using assms(2) by (induction ys) auto
  show ?thesis by (simp add: received_def 1 2)
qed

lemma entry_connection_other:
  "v' \<noteq> v \<Longrightarrow> modulePendingMap (connection v c w) v' = modulePendingMap w v'"
  by (simp add: connection_def entry_resume_other)

lemma entry_moduleImport_other:
  "v' \<noteq> v \<Longrightarrow> modulePendingMap (moduleImport v r w) v' = modulePendingMap w v'"
  by (cases "modulePendingMap w v") (simp_all add: moduleImport_def entry_rest_other)

lemma entry_hotUpdate_other:
  "v' \<noteq> v \<Longrightarrow> modulePendingMap (hotUpdate v p w) v' = modulePendingMap w v'"
  by (cases p; cases "modulePendingMap w v")
    (simp_all add: entry_moduleImport_other hot_send_def clear_def)

text \<open>
  Claim C10. The map is keyed by the server and no operation takes a socket. Once an
  artifact is recorded for a server, \<^verbatim>\<open>moduleImport\<close> leaves the state unchanged
  after any later connection events; a socket that connects after the artifact was
  sent never receives it, the repeated delivery included; \<^verbatim>\<open>rsc-reload\<close> empties the
  one set of the server; and neither \<^verbatim>\<open>hotUpdate\<close> nor a connection event on a
  server touches the entry of another server.
\<close>

theorem registry_keyed_by_server:
  "(has w v a \<longrightarrow> moduleImport v a (connects cs w) = connects cs w)
   \<and> (has w v a \<longrightarrow> Connection v c \<notin> set (trace w) \<longrightarrow>
        Send v (ModuleImport a)
          \<notin> set (received v c (trace (moduleImport v a (connection v c w)))))
   \<and> sourceSet (hotUpdate v RscReload w) v = []
   \<and> (v' \<noteq> v \<longrightarrow> modulePendingMap (hotUpdate v p w) v' = modulePendingMap w v'
        \<and> modulePendingMap (connection v c w) v' = modulePendingMap w v')"
proof -
  have 1: "moduleImport v a (connects cs w) = connects cs w" if "has w v a"
    using that by (simp add: has_connects moduleImport_noop)
  have 2: "Send v (ModuleImport a)
          \<notin> set (received v c (trace (moduleImport v a (connection v c w))))"
    if h: "has w v a" and n: "Connection v c \<notin> set (trace w)"
  proof -
    from trace_connection [of v c w] obtain ys where
      ys: "trace (connection v c w) = trace w @ Connection v c # ys"
        "\<forall>x \<in> set ys. \<exists>r. x = Send v (ModuleImport r) \<and> \<not> has w v r"
      by blast
    have "moduleImport v a (connection v c w) = connection v c w"
      using h by (simp add: has_connection moduleImport_noop)
    then have "received v c (trace (moduleImport v a (connection v c w))) = ys"
      using received_new_socket [OF n ys(2)] ys(1) by simp
    with ys(2) h show ?thesis by auto
  qed
  show ?thesis
    using 1 2 sourceSet_rsc_reload [of v w] entry_hotUpdate_other [of v' v p w]
      entry_connection_other [of v' v c w]
    by blast
qed

lemma connects8: "connects [(0, 8)] w1 = connection 0 8 w1"
  by (simp add: connects_def)

lemma w1_conn8:
  "trace (connection 0 8 w1) = [Connection 0 7, Send 0 (ModuleImport 11), Connection 0 8]"
  "modulePendingMap (connection 0 8 w1) = modulePendingMap w1"
  by (simp_all add: connection_def w1_eval)

theorem registry_keyed_by_server_witness:
  "has w1 0 11 \<and> Connection 0 8 \<notin> set (trace w1)
   \<and> moduleImport 0 11 (connects [(0, 8)] w1) = connects [(0, 8)] w1
   \<and> received 0 8 (trace (moduleImport 0 11 (connection 0 8 w1))) = []
   \<and> Send 0 (ModuleImport 11)
        \<notin> set (received 0 8 (trace (moduleImport 0 11 (connection 0 8 w1))))
   \<and> sourceSet (hotUpdate 0 RscReload w1) 0 = []
   \<and> (1::nat) \<noteq> 0
   \<and> modulePendingMap (hotUpdate 0 RscReload w1) 1 = modulePendingMap w1 1
   \<and> modulePendingMap (connection 0 8 w1) 1 = modulePendingMap w1 1"
proof -
  have h: "has w1 0 11" by (simp add: has_def sourceSet_def w1_eval)
  have n: "Connection 0 8 \<notin> set (trace w1)" by (simp add: w1_eval)
  have m: "moduleImport 0 11 (connection 0 8 w1) = connection 0 8 w1"
    using h by (simp add: has_connection moduleImport_noop)
  have r: "received 0 8 (trace (moduleImport 0 11 (connection 0 8 w1))) = []"
    by (simp add: m w1_conn8 received_def)
  from registry_keyed_by_server [of w1 0 11 "[(0, 8)]" 8 1 RscReload] h n r
  show ?thesis by (simp del: hotUpdate.simps)
qed

subsection \<open>An artifact is sent at most once while it stays recorded\<close>

lemma sends_of_rest:
  "sends_of v a (moduleImport_rest v' r w) =
     (if \<not> has w v' r \<and> v' = v \<and> r = a then Suc (sends_of v a w) else sends_of v a w)"
  by (simp add: sends_of_def trace_rest)

lemma recorded_once_rest:
  "recorded_once v a n w \<Longrightarrow> recorded_once v a n (moduleImport_rest v' r w)"
  by (auto simp: recorded_once_def sends_of_rest has_rest sourceSet_rest)

lemma fresh_count: "\<not> has w v a \<Longrightarrow> count_list (sourceSet w v) a = 0"
  by (simp add: has_def count_list_0_iff)

lemma at_most_once_rest:
  "at_most_once v a n w \<Longrightarrow> at_most_once v a n (moduleImport_rest v' r w)"
proof (cases "has w v a")
  case True
  assume "at_most_once v a n w"
  with True have "recorded_once v a n w" by (simp add: at_most_once_def)
  then show ?thesis by (simp add: at_most_once_def recorded_once_rest)
next
  case False
  assume "at_most_once v a n w"
  with False have n: "sends_of v a w = n" by (auto simp: at_most_once_def recorded_once_def)
  show ?thesis
    using False n fresh_count [OF False]
    by (auto simp: at_most_once_def recorded_once_def sends_of_rest has_rest sourceSet_rest)
qed

lemma recorded_once_resume:
  "recorded_once v a n w \<Longrightarrow> recorded_once v a n (resume v' rs w)"
  by (induction rs arbitrary: w) (simp_all add: recorded_once_rest)

lemma at_most_once_resume:
  "at_most_once v a n w \<Longrightarrow> at_most_once v a n (resume v' rs w)"
  by (induction rs arbitrary: w) (simp_all add: at_most_once_rest)

lemma recorded_once_cong:
  "modulePendingMap w' = modulePendingMap w \<Longrightarrow> sends_of v a w' = sends_of v a w \<Longrightarrow>
   recorded_once v a n w' = recorded_once v a n w"
  by (simp add: recorded_once_def has_def sourceSet_def)

lemma at_most_once_cong:
  "modulePendingMap w' = modulePendingMap w \<Longrightarrow> sends_of v a w' = sends_of v a w \<Longrightarrow>
   at_most_once v a n w' = at_most_once v a n w"
  by (simp add: at_most_once_def recorded_once_def has_def sourceSet_def)

lemma recorded_once_connection:
  assumes "recorded_once v a n w"
  shows "recorded_once v a n (connection v' c w)"
proof -
  let ?w0 = "w\<lparr>suspended := filter (\<lambda>p. fst p \<noteq> v') (suspended w),
              trace := trace w @ [Connection v' c]\<rparr>"
  have "recorded_once v a n ?w0 = recorded_once v a n w"
    by (rule recorded_once_cong) (simp_all add: sends_of_def)
  with assms have "recorded_once v a n ?w0" by simp
  then show ?thesis unfolding connection_def by (rule recorded_once_resume)
qed

lemma at_most_once_connection:
  assumes "at_most_once v a n w"
  shows "at_most_once v a n (connection v' c w)"
proof -
  let ?w0 = "w\<lparr>suspended := filter (\<lambda>p. fst p \<noteq> v') (suspended w),
              trace := trace w @ [Connection v' c]\<rparr>"
  have "at_most_once v a n ?w0 = at_most_once v a n w"
    by (rule at_most_once_cong) (simp_all add: sends_of_def)
  with assms have "at_most_once v a n ?w0" by simp
  then show ?thesis unfolding connection_def by (rule at_most_once_resume)
qed

lemma recorded_once_connects:
  "recorded_once v a n w \<Longrightarrow> recorded_once v a n (connects cs w)"
  by (induction cs arbitrary: w)
    (simp_all add: connects_Nil connects_Cons recorded_once_connection)

lemma at_most_once_connects:
  "at_most_once v a n w \<Longrightarrow> at_most_once v a n (connects cs w)"
  by (induction cs arbitrary: w)
    (simp_all add: connects_Nil connects_Cons at_most_once_connection)

lemma entry_moduleImport: "modulePendingMap (moduleImport v r w) v \<noteq> None"
  by (cases "modulePendingMap w v") (simp_all add: moduleImport_def entry_rest)

lemma at_most_once_park:
  "modulePendingMap w v' = None \<Longrightarrow>
   at_most_once v a n (w\<lparr>modulePendingMap := (modulePendingMap w)(v' \<mapsto> []),
                          suspended := suspended w @ [(v', r)]\<rparr>)
     = at_most_once v a n w"
  by (simp add: at_most_once_def recorded_once_def has_def sourceSet_def sends_of_def)

lemma at_most_once_moduleImport:
  "at_most_once v a n w \<Longrightarrow> at_most_once v a n (moduleImport v' r w)"
  by (cases "modulePendingMap w v'")
    (simp_all add: moduleImport_def at_most_once_park at_most_once_rest)

lemma recorded_once_moduleImport:
  assumes "at_most_once v a n w" and "modulePendingMap w v \<noteq> None"
  shows "recorded_once v a n (moduleImport v a w)"
proof -
  from assms(2) obtain xs where "modulePendingMap w v = Some xs" by blast
  then have m: "moduleImport v a w = moduleImport_rest v a w" by (rule moduleImport_entry)
  show ?thesis
  proof (cases "has w v a")
    case True
    with assms(1) show ?thesis by (simp add: at_most_once_def moduleImport_noop)
  next
    case False
    with assms(1) have "sends_of v a w = n" by (auto simp: at_most_once_def recorded_once_def)
    with False fresh_count [OF False] show ?thesis
      by (simp add: m recorded_once_def sends_of_rest has_rest sourceSet_rest)
  qed
qed

lemma init_fresh: "\<not> has init 0 11" "sends_of 0 11 init = 0"
  by (simp_all add: has_def sourceSet_def init_def sends_of_def)

lemma w1_connects: "connects [(0, 7)] (moduleImport 0 11 (connects [] init)) = w1"
  by (simp add: connects_def w1_def)

lemma w1_has: "has w1 0 11"
  by (simp add: has_def sourceSet_def w1_eval)

lemma parked_first:
  "connects [] (moduleImport 0 11 (connects [] init)) = moduleImport 0 11 init"
  by (simp add: connects_def)

lemma parked_first_eval:
  "\<not> has (moduleImport 0 11 init) 0 11"
  "trace (moduleImport 0 11 init) = []"
  "suspended (moduleImport 0 11 init) = [(0, 11)]"
  "sourceSet (moduleImport 0 11 init) 0 = []"
  by (simp_all add: eval_defs)

text \<open>
  Claim C3, as amended. Let an artifact be not recorded for a server. After two calls
  of \<^verbatim>\<open>moduleImport\<close> for it, with any connection events before, between and after
  them, its \<^verbatim>\<open>module-import\<close> event has been sent exactly once more and the set of
  the server holds it exactly once. When the second call finds the artifact recorded
  (the first call has run to its end), the second call changes nothing. When it does
  not (the first call is still parked), it is the second call that records the
  artifact and sends the event, without being parked, and the first call adds
  nothing when it resumes.
\<close>

theorem deliver_twice_once:
  "\<not> has w v a \<longrightarrow>
     (let w1 = connects csb (moduleImport v a (connects csa w));
          w2 = connects csc (moduleImport v a w1)
      in sends_of v a w2 = Suc (sends_of v a w)
         \<and> count_list (sourceSet w2 v) a = 1
         \<and> has w2 v a
         \<and> (has w1 v a \<longrightarrow> moduleImport v a w1 = w1)
         \<and> (\<not> has w1 v a \<longrightarrow>
              trace (moduleImport v a w1) = trace w1 @ [Send v (ModuleImport a)]
              \<and> sourceSet (moduleImport v a w1) v = sourceSet w1 v @ [a]
              \<and> suspended (moduleImport v a w1) = suspended w1))"
proof
  assume f: "\<not> has w v a"
  let ?n = "sends_of v a w"
  let ?w1 = "connects csb (moduleImport v a (connects csa w))"
  let ?w2 = "connects csc (moduleImport v a ?w1)"
  from f have "at_most_once v a ?n w" by (simp add: at_most_once_def)
  then have "at_most_once v a ?n (moduleImport v a (connects csa w))"
    by (simp add: at_most_once_connects at_most_once_moduleImport)
  then have 1: "at_most_once v a ?n ?w1" by (rule at_most_once_connects)
  have 2: "modulePendingMap ?w1 v \<noteq> None"
    by (rule entry_connects) (rule entry_moduleImport)
  from 1 2 have "recorded_once v a ?n (moduleImport v a ?w1)"
    by (rule recorded_once_moduleImport)
  then have "recorded_once v a ?n ?w2" by (rule recorded_once_connects)
  then have 3: "sends_of v a ?w2 = Suc (sends_of v a w)
         \<and> count_list (sourceSet ?w2 v) a = 1 \<and> has ?w2 v a"
    by (simp add: recorded_once_def)
  have 4: "moduleImport v a ?w1 = ?w1" if "has ?w1 v a"
    using that by (rule moduleImport_noop)
  from 2 obtain xs where "modulePendingMap ?w1 v = Some xs" by blast
  then have m: "moduleImport v a ?w1 = moduleImport_rest v a ?w1" by (rule moduleImport_entry)
  have 5: "trace (moduleImport v a ?w1) = trace ?w1 @ [Send v (ModuleImport a)]
              \<and> sourceSet (moduleImport v a ?w1) v = sourceSet ?w1 v @ [a]
              \<and> suspended (moduleImport v a ?w1) = suspended ?w1"
    if "\<not> has ?w1 v a"
    unfolding m using that by (simp add: trace_rest sourceSet_rest suspended_rest)
  from 3 4 5 show "let w1 = ?w1; w2 = connects csc (moduleImport v a w1)
      in sends_of v a w2 = Suc (sends_of v a w)
         \<and> count_list (sourceSet w2 v) a = 1
         \<and> has w2 v a
         \<and> (has w1 v a \<longrightarrow> moduleImport v a w1 = w1)
         \<and> (\<not> has w1 v a \<longrightarrow>
              trace (moduleImport v a w1) = trace w1 @ [Send v (ModuleImport a)]
              \<and> sourceSet (moduleImport v a w1) v = sourceSet w1 v @ [a]
              \<and> suspended (moduleImport v a w1) = suspended w1)"
    unfolding Let_def by blast
qed

theorem deliver_twice_once_witness:
  "\<not> has init 0 11
   \<and> has w1 0 11
   \<and> sends_of 0 11 (connects [(0, 8)] (moduleImport 0 11 w1)) = Suc (sends_of 0 11 init)
   \<and> count_list (sourceSet (connects [(0, 8)] (moduleImport 0 11 w1)) 0) 11 = 1
   \<and> moduleImport 0 11 w1 = w1
   \<and> \<not> has (moduleImport 0 11 init) 0 11
   \<and> trace (moduleImport 0 11 (moduleImport 0 11 init))
       = trace (moduleImport 0 11 init) @ [Send 0 (ModuleImport 11)]
   \<and> sends_of 0 11 (connects [(0, 7)] (moduleImport 0 11 (moduleImport 0 11 init)))
       = Suc (sends_of 0 11 init)
   \<and> count_list (sourceSet (connects [(0, 7)] (moduleImport 0 11 (moduleImport 0 11 init))) 0) 11 = 1"
proof -
  note t = deliver_twice_once [where w = init and v = 0 and a = 11,
      unfolded Let_def, rule_format, OF init_fresh(1)]
  from t [where csa = "[]" and csb = "[(0, 7)]" and csc = "[(0, 8)]", unfolded w1_connects]
    t [where csa = "[]" and csb = "[]" and csc = "[(0, 7)]", unfolded parked_first]
    init_fresh(1) w1_has parked_first_eval(1)
  show ?thesis by blast
qed

text \<open>
  Claim C3 as stated fails in its clause that the second call is a no-op: on a
  server with no entry the first call is parked and has sent nothing, and the second
  call records the artifact and sends its event.
\<close>

theorem second_call_noop_counterexample:
  "\<not> has init 0 11
   \<and> trace (moduleImport 0 11 init) = []
   \<and> trace (moduleImport 0 11 (moduleImport 0 11 init)) = [Send 0 (ModuleImport 11)]
   \<and> sourceSet (moduleImport 0 11 (moduleImport 0 11 init)) 0 = [11]
   \<and> moduleImport 0 11 (moduleImport 0 11 init) \<noteq> moduleImport 0 11 init"
proof -
  have a: "trace (moduleImport 0 11 (moduleImport 0 11 init)) = [Send 0 (ModuleImport 11)]"
    by (simp add: eval_defs)
  have b: "sourceSet (moduleImport 0 11 (moduleImport 0 11 init)) 0 = [11]"
    by (simp add: eval_defs)
  have "trace (moduleImport 0 11 (moduleImport 0 11 init)) \<noteq> trace (moduleImport 0 11 init)"
    by (simp add: a parked_first_eval)
  then have "moduleImport 0 11 (moduleImport 0 11 init) \<noteq> moduleImport 0 11 init" by auto
  with a b init_fresh(1) parked_first_eval(2) show ?thesis by blast
qed

subsection \<open>The parked call\<close>

lemma suspended_hot_send: "suspended (hot_send v p w) = suspended w"
  by (simp add: hot_send_def)

lemma suspended_clear: "suspended (clear v w) = suspended w"
  by (cases "modulePendingMap w v") (simp_all add: clear_def)

lemma suspended_moduleImport:
  "suspended (moduleImport v r w) =
     (if modulePendingMap w v = None then suspended w @ [(v, r)] else suspended w)"
  by (cases "modulePendingMap w v") (simp_all add: moduleImport_def suspended_rest)

lemma parked_hotUpdate:
  "modulePendingMap w v \<noteq> None \<Longrightarrow>
   filter (\<lambda>p. fst p = v) (suspended (hotUpdate v' p w)) = filter (\<lambda>p. fst p = v) (suspended w)"
  by (cases p) (auto simp: suspended_hot_send suspended_clear suspended_moduleImport)

lemma parked_connection:
  "v' \<noteq> v \<Longrightarrow>
   filter (\<lambda>p. fst p = v) (suspended (connection v' c w)) = filter (\<lambda>p. fst p = v) (suspended w)"
  by (simp add: suspended_connection) (rule filter_cong, auto)

lemma entry_hotUpdate:
  "modulePendingMap w v \<noteq> None \<Longrightarrow> modulePendingMap (hotUpdate v' p w) v \<noteq> None"
proof (cases "v = v'")
  case False
  assume "modulePendingMap w v \<noteq> None"
  with False show ?thesis by (simp add: entry_hotUpdate_other del: not_None_eq)
next
  case True
  assume e: "modulePendingMap w v \<noteq> None"
  then obtain xs where xs: "modulePendingMap w v' = Some xs" using True by blast
  show ?thesis
  proof (cases p)
    case (ModuleImport r)
    with e True show ?thesis
      using moduleImport_entry [OF xs, of r] by (simp add: entry_rest del: not_None_eq)
  qed (simp_all add: True xs hot_send_def clear_def)
qed

lemma parked_step:
  "modulePendingMap w v \<noteq> None \<Longrightarrow> \<not> is_connect v e \<Longrightarrow>
   filter (\<lambda>p. fst p = v) (suspended (step e w)) = filter (\<lambda>p. fst p = v) (suspended w)
   \<and> modulePendingMap (step e w) v \<noteq> None"
  by (cases e) (simp_all add: parked_hotUpdate parked_connection entry_hotUpdate entry_connection
      del: not_None_eq)

lemma parked_run:
  "modulePendingMap w v \<noteq> None \<Longrightarrow> \<forall>e \<in> set es. \<not> is_connect v e \<Longrightarrow>
   filter (\<lambda>p. fst p = v) (suspended (run es w)) = filter (\<lambda>p. fst p = v) (suspended w)
   \<and> modulePendingMap (run es w) v \<noteq> None"
proof (induction es arbitrary: w)
  case Nil
  then show ?case by simp
next
  case (Cons e es)
  from Cons.prems have s: "filter (\<lambda>p. fst p = v) (suspended (step e w)) = filter (\<lambda>p. fst p = v) (suspended w)"
    and m: "modulePendingMap (step e w) v \<noteq> None"
    using parked_step [of w v e] by simp_all
  from Cons.IH [OF m] Cons.prems(2) s show ?case by simp
qed

lemma no_parked:
  "parked_ok w \<Longrightarrow> modulePendingMap w v = None \<Longrightarrow> filter (\<lambda>p. fst p = v) (suspended w) = []"
  by (auto simp: parked_ok_def filter_empty_conv)

lemma no_parked_reachable:
  "modulePendingMap (run es init) v = None \<Longrightarrow>
   filter (\<lambda>p. fst p = v) (suspended (run es init)) = []"
  using invariant_reachable [of es] by (simp add: invariant_def no_parked)

text \<open>
  Claim C2, as amended. Only the call of \<^verbatim>\<open>moduleImport\<close> that finds no entry for its
  server suspends: it sends nothing and is parked. A call that finds an entry is not
  parked and sends at once unless the artifact is recorded, whether or not a
  connection event has been observed. In a reachable state with no entry for the
  server, the parked call stays parked through every event that is not a connection
  event on its server; the next such connection event resumes it, after which it is
  no longer parked and its artifact is recorded.
\<close>

theorem first_call_waits:
  "(modulePendingMap w v = None \<longrightarrow>
      trace (moduleImport v r w) = trace w
      \<and> suspended (moduleImport v r w) = suspended w @ [(v, r)])
   \<and> (modulePendingMap w v = Some xs \<longrightarrow>
      suspended (moduleImport v r w) = suspended w
      \<and> trace (moduleImport v r w)
          = (if r \<in> set xs then trace w else trace w @ [Send v (ModuleImport r)]))
   \<and> (modulePendingMap (run es init) v = None \<longrightarrow> (\<forall>e \<in> set es'. \<not> is_connect v e) \<longrightarrow>
      filter (\<lambda>p. fst p = v) (suspended (run es' (moduleImport v r (run es init)))) = [(v, r)]
      \<and> filter (\<lambda>p. fst p = v)
          (suspended (connection v c (run es' (moduleImport v r (run es init))))) = []
      \<and> has (connection v c (run es' (moduleImport v r (run es init)))) v r)"
proof -
  have 1: "trace (moduleImport v r w) = trace w
      \<and> suspended (moduleImport v r w) = suspended w @ [(v, r)]"
    if "modulePendingMap w v = None"
    using that by (simp add: moduleImport_def)
  have 2: "suspended (moduleImport v r w) = suspended w
      \<and> trace (moduleImport v r w)
          = (if r \<in> set xs then trace w else trace w @ [Send v (ModuleImport r)])"
    if "modulePendingMap w v = Some xs"
    using that by (simp add: moduleImport_def suspended_rest trace_rest has_def sourceSet_def)
  have 3: "filter (\<lambda>p. fst p = v) (suspended (run es' (moduleImport v r (run es init)))) = [(v, r)]
      \<and> filter (\<lambda>p. fst p = v)
          (suspended (connection v c (run es' (moduleImport v r (run es init))))) = []
      \<and> has (connection v c (run es' (moduleImport v r (run es init)))) v r"
    if n: "modulePendingMap (run es init) v = None" and q: "\<forall>e \<in> set es'. \<not> is_connect v e"
  proof -
    let ?w = "run es init"
    let ?wa = "moduleImport v r ?w"
    let ?wb = "run es' ?wa"
    have a: "filter (\<lambda>p. fst p = v) (suspended ?wa) = [(v, r)]"
      using n no_parked_reachable [OF n] by (simp add: suspended_moduleImport)
    have e: "modulePendingMap ?wa v \<noteq> None" by (rule entry_moduleImport)
    from parked_run [OF e q] a
    have b: "filter (\<lambda>p. fst p = v) (suspended ?wb) = [(v, r)]" by simp
    have c: "filter (\<lambda>p. fst p = v) (suspended (connection v c ?wb)) = []"
      by (simp add: suspended_connection filter_empty_conv)
    have d: "has (connection v c ?wb) v r"
      by (simp add: connection_def b has_rest)
    from b c d show ?thesis by blast
  qed
  from 1 2 3 show ?thesis by blast
qed


lemma init_entry: "modulePendingMap init v = None" "suspended init = []" "trace init = []"
  by (simp_all add: init_def)

theorem first_call_waits_witness:
  "modulePendingMap init 0 = None
   \<and> trace (moduleImport 0 11 init) = trace init
   \<and> suspended (moduleImport 0 11 init) = suspended init @ [(0, 11)]
   \<and> modulePendingMap w1 0 = Some [11]
   \<and> suspended (moduleImport 0 12 w1) = suspended w1
   \<and> trace (moduleImport 0 12 w1) = trace w1 @ [Send 0 (ModuleImport 12)]
   \<and> modulePendingMap (run [] init) 0 = None
   \<and> \<not> is_connect 0 (HotUpdate 0 (ModuleImport 12)) \<and> \<not> is_connect 0 (Connect 2 9)
   \<and> filter (\<lambda>p. fst p = 0)
        (suspended (run [HotUpdate 0 (ModuleImport 12), Connect 2 9]
                      (moduleImport 0 11 (run [] init)))) = [(0, 11)]
   \<and> filter (\<lambda>p. fst p = 0)
        (suspended (connection 0 7 (run [HotUpdate 0 (ModuleImport 12), Connect 2 9]
                      (moduleImport 0 11 (run [] init))))) = []
   \<and> has (connection 0 7 (run [HotUpdate 0 (ModuleImport 12), Connect 2 9]
                      (moduleImport 0 11 (run [] init)))) 0 11"
proof -
  have n: "modulePendingMap init 0 = None" by (rule init_entry(1))
  have n': "modulePendingMap (run [] init) 0 = None" by (simp add: init_entry)
  have q: "\<forall>e \<in> set [HotUpdate 0 (ModuleImport 12), Connect 2 9]. \<not> is_connect 0 e" by simp
  have q': "\<not> is_connect 0 (HotUpdate 0 (ModuleImport 12)) \<and> \<not> is_connect 0 (Connect 2 9)" by simp
  have x: "modulePendingMap w1 0 = Some [11]" by (rule w1_eval(1))
  have y: "(12::nat) \<notin> set [11]" by simp
  note a = first_call_waits [where w = init and v = 0 and r = 11 and xs = "[]" and es = "[]"
      and es' = "[HotUpdate 0 (ModuleImport 12), Connect 2 9]" and c = 7]
  note b = first_call_waits [where w = w1 and v = 0 and r = 12 and xs = "[11]" and es = "[]"
      and es' = "[]" and c = 7]
  from a n n' q have a': "trace (moduleImport 0 11 init) = trace init
      \<and> suspended (moduleImport 0 11 init) = suspended init @ [(0, 11)]
      \<and> filter (\<lambda>p. fst p = 0)
        (suspended (run [HotUpdate 0 (ModuleImport 12), Connect 2 9]
                      (moduleImport 0 11 (run [] init)))) = [(0, 11)]
      \<and> filter (\<lambda>p. fst p = 0)
        (suspended (connection 0 7 (run [HotUpdate 0 (ModuleImport 12), Connect 2 9]
                      (moduleImport 0 11 (run [] init))))) = []
      \<and> has (connection 0 7 (run [HotUpdate 0 (ModuleImport 12), Connect 2 9]
                      (moduleImport 0 11 (run [] init)))) 0 11"
    by blast
  from b x have "suspended (moduleImport 0 12 w1) = suspended w1
      \<and> trace (moduleImport 0 12 w1)
          = (if 12 \<in> set [11::nat] then trace w1 else trace w1 @ [Send 0 (ModuleImport 12)])"
    by blast
  with y have b': "suspended (moduleImport 0 12 w1) = suspended w1
      \<and> trace (moduleImport 0 12 w1) = trace w1 @ [Send 0 (ModuleImport 12)]"
    by simp
  from a' b' n n' q' x show ?thesis by blast
qed

text \<open>
  Claim C2 as stated fails: two artifacts are delivered on server 0 and no socket has
  connected; the second call is not parked and its event has been sent.
\<close>

theorem deliver_before_connection_counterexample:
  "trace w_early = [Send 0 (ModuleImport 12)]
   \<and> suspended w_early = [(0, 11)]
   \<and> (0, 12) \<notin> set (suspended w_early)
   \<and> module_imports 0 (before_first_connection 0 (trace w_early)) = [12]"
  by (simp add: w_early_eval before_first_connection_def)

subsection \<open>Two deliveries before the first connection\<close>

text \<open>
  Claim C1, as amended. In a reachable state with no entry for the server, let two
  different artifacts be delivered, the first and then the second, and let a
  connection event follow. The second artifact is recorded and sent at once, before
  the connection event; the first is recorded and sent when the connection event
  arrives. Both are sent once and both are recorded, in the order second, first. In
  every reachable state the set of a server lists without repetition, in insertion
  order, the artifacts sent on it since its last \<^verbatim>\<open>rsc-reload\<close>: the order on the
  transport is the insertion order.
\<close>

theorem early_deliveries:
  "(modulePendingMap (run es init) v = None \<longrightarrow> a \<noteq> b \<longrightarrow>
      trace (run (es @ [HotUpdate v (ModuleImport a), HotUpdate v (ModuleImport b), Connect v c]) init)
        = trace (run es init) @ [Send v (ModuleImport b), Connection v c, Send v (ModuleImport a)]
      \<and> sourceSet (run (es @ [HotUpdate v (ModuleImport a), HotUpdate v (ModuleImport b),
                               Connect v c]) init) v = [b, a])
   \<and> imports_since_reload v (trace (run es init)) = sourceSet (run es init) v
   \<and> distinct (sourceSet (run es init) v)"
proof -
  let ?w = "run es init"
  have 1: "trace (run (es @ [HotUpdate v (ModuleImport a), HotUpdate v (ModuleImport b), Connect v c]) init)
        = trace ?w @ [Send v (ModuleImport b), Connection v c, Send v (ModuleImport a)]
      \<and> sourceSet (run (es @ [HotUpdate v (ModuleImport a), HotUpdate v (ModuleImport b),
                               Connect v c]) init) v = [b, a]"
    if n: "modulePendingMap ?w v = None" and d: "a \<noteq> b"
  proof -
    have f: "filter (\<lambda>p. fst p = v) (suspended ?w) = []" by (rule no_parked_reachable [OF n])
    have r: "run (es @ [HotUpdate v (ModuleImport a), HotUpdate v (ModuleImport b), Connect v c]) init
             = connection v c (moduleImport v b (moduleImport v a ?w))"
      by (simp add: run_append)
    show ?thesis
      unfolding r using n d f
      by (simp add: moduleImport_def connection_def moduleImport_rest_def has_def sourceSet_def
          hot_send_def)
  qed
  have "registry_matches_trace ?w" using invariant_reachable [of es] by (simp add: invariant_def)
  then have 2: "imports_since_reload v (trace ?w) = sourceSet ?w v \<and> distinct (sourceSet ?w v)"
    by (simp add: registry_matches_trace_def)
  from 1 2 show ?thesis by blast
qed

theorem early_deliveries_witness:
  "modulePendingMap (run [] init) 0 = None \<and> (11::nat) \<noteq> 12
   \<and> trace (run ([] @ [HotUpdate 0 (ModuleImport 11), HotUpdate 0 (ModuleImport 12), Connect 0 7]) init)
       = trace (run [] init) @ [Send 0 (ModuleImport 12), Connection 0 7, Send 0 (ModuleImport 11)]
   \<and> sourceSet (run ([] @ [HotUpdate 0 (ModuleImport 11), HotUpdate 0 (ModuleImport 12),
                            Connect 0 7]) init) 0 = [12, 11]
   \<and> imports_since_reload 0 (trace w_replay) = [12, 11]"
proof -
  have n: "modulePendingMap (run [] init) 0 = None" by (simp add: init_entry)
  have d: "(11::nat) \<noteq> 12" by simp
  note a = early_deliveries [where es = "[]" and v = 0 and a = 11 and b = 12 and c = 7]
  note b = early_deliveries [where v = 0 and a = 11 and b = 12 and c = 7 and
      es = "[HotUpdate 0 (ModuleImport 11), HotUpdate 0 (ModuleImport 12), Connect 0 7]",
      folded w_replay_def]
  have s: "sourceSet w_replay 0 = [12, 11]" by (simp add: sourceSet_def w_replay_eval)
  from b s have i: "imports_since_reload 0 (trace w_replay) = [12, 11]" by simp
  from a n d i show ?thesis by blast
qed

text \<open>
  Claim C1 as stated fails: artifact 11 and then artifact 12 are delivered on
  server 0 before socket 7 connects. Only 11 is sent after the connection event, and
  the order on the transport is 12, 11.
\<close>

theorem fifo_replay_counterexample:
  "trace w_replay = [Send 0 (ModuleImport 12), Connection 0 7, Send 0 (ModuleImport 11)]
   \<and> module_imports 0 (after_first_connection 0 (trace w_replay)) = [11]
   \<and> module_imports 0 (trace w_replay) \<noteq> [11, 12]"
  by (simp add: w_replay_eval after_first_connection_def)

section \<open>Facts about generateInitialScripts\<close>

lemma blocking_neq [simp]:
  "blockingViteClient \<noteq> cssModuleScript x" "blockingViteClient \<noteq> styleTag x"
  "cssModuleScript x \<noteq> blockingViteClient" "styleTag x \<noteq> blockingViteClient"
  by (simp_all add: blockingViteClient_def cssModuleScript_def styleTag_def)

lemma for_of_injected:
  "for_of h rs (acc, True) =
     (acc @ map (\<lambda>r. if isCssModule (h r) then cssModuleScript (h r) else styleTag (h r)) rs, True)"
  by (induction rs arbitrary: acc) auto

lemma for_of_shape:
  "fst (for_of h rs (acc, False)) =
     acc @ map (\<lambda>r. styleTag (h r)) (takeWhile (\<lambda>r. \<not> isCssModule (h r)) rs)
     @ (case dropWhile (\<lambda>r. \<not> isCssModule (h r)) rs of
          [] \<Rightarrow> []
        | r # rest \<Rightarrow>
            blockingViteClient # cssModuleScript (h r)
            # map (\<lambda>r. if isCssModule (h r) then cssModuleScript (h r) else styleTag (h r)) rest)"
  by (induction rs arbitrary: acc) (auto simp: for_of_injected)

lemma for_of_count:
  "count_list (fst (for_of h rs (acc, flag))) blockingViteClient =
     count_list acc blockingViteClient
     + (if \<not> flag \<and> (\<exists>r \<in> set rs. isCssModule (h r)) then 1 else 0)"
  by (induction rs arbitrary: acc flag) auto

lemma generateInitialScripts_shape:
  "(modulePendingMap w v = Some [a, b] \<longrightarrow> isCssModule (h a) \<longrightarrow> \<not> isCssModule (h b) \<longrightarrow>
      generateInitialScripts h w (Some v)
        = [blockingViteClient, cssModuleScript (h a), styleTag (h b)])
   \<and> (modulePendingMap w v = Some rs \<longrightarrow>
      generateInitialScripts h w (Some v)
        = map (\<lambda>r. styleTag (h r)) (takeWhile (\<lambda>r. \<not> isCssModule (h r)) rs)
          @ (case dropWhile (\<lambda>r. \<not> isCssModule (h r)) rs of
               [] \<Rightarrow> []
             | r # rest \<Rightarrow>
                 blockingViteClient # cssModuleScript (h r)
                 # map (\<lambda>r. if isCssModule (h r) then cssModuleScript (h r) else styleTag (h r)) rest)
      \<and> count_list (generateInitialScripts h w (Some v)) blockingViteClient
        = (if \<exists>r \<in> set rs. isCssModule (h r) then 1 else 0))"
proof -
  have 1: "generateInitialScripts h w (Some v)
        = [blockingViteClient, cssModuleScript (h a), styleTag (h b)]"
    if "modulePendingMap w v = Some [a, b]" "isCssModule (h a)" "\<not> isCssModule (h b)"
    using that by (simp add: generateInitialScripts_def)
  have 2: "generateInitialScripts h w (Some v) = fst (for_of h rs ([], False))"
    if "modulePendingMap w v = Some rs"
    using that by (simp add: generateInitialScripts_def)
  show ?thesis
    using 1 2 for_of_shape [of h rs "[]"] for_of_count [of h rs "[]" False] by simp
qed

lemma css1: "isCssModule (h0 11)" "\<not> isCssModule (h0 12)"
  by (simp_all add: isCssModule_def h0_def js_endsWith_def)

text \<open>
  An id ends with \<^verbatim>\<open>.module.css\<close> when it is some string followed by that suffix.
\<close>

lemma js_endsWith_iff: "js_endsWith s p \<longleftrightarrow> (\<exists>q. s = q @ p)"
proof
  assume "js_endsWith s p"
  then have "s = take (length s - length p) s @ p"
    by (metis append_take_drop_id js_endsWith_def)
  then show "\<exists>q. s = q @ p" by blast
next
  assume "\<exists>q. s = q @ p"
  then show "js_endsWith s p" by (auto simp: js_endsWith_def)
qed

lemma isCssModule_iff: "isCssModule x \<longleftrightarrow> (\<exists>p. id' x = p @ ''.module.css'')"
  by (simp add: isCssModule_def js_endsWith_iff)

text \<open>
  Claim C5. With a CSS module (an id that ends with \<^verbatim>\<open>.module.css\<close>) and then a plain
  stylesheet recorded, the planner returns exactly three elements, in this order: the
  script element with \<^verbatim>\<open>type="module"\<close>, \<^verbatim>\<open>blocking="render"\<close> and
  \<^verbatim>\<open>src="/@vite/client"\<close>, prepended to the head, with no content; the module script
  whose content is the \<^verbatim>\<open>code\<close> of the CSS module, prepended to the head; the style
  element of type \<^verbatim>\<open>text/css\<close> whose content is the \<^verbatim>\<open>source\<close> of the stylesheet,
  placed in the body. For every recorded list the output is the style elements of
  the artifacts before the first CSS module, then, if there is a CSS module, the
  blocking script immediately before the script of the first one, then one element
  per remaining artifact in order; the blocking script occurs once when a CSS module
  is recorded and not at all otherwise.
\<close>

theorem generateInitialScripts_order:
  "(let css = (\<lambda>r. \<exists>p. id' (h r) = p @ ''.module.css'');
        blocking = \<lparr>tag = ''script'',
                     attrs = [(''type'', ''module''), (''blocking'', ''render''),
                              (''src'', ''/@vite/client'')],
                     children = None, injectTo = HeadPrepend\<rparr>;
        script = (\<lambda>r. \<lparr>tag = ''script'',
                     attrs = [(''type'', ''module''), (''WAKU_ATTR_NAME'', id' (h r))],
                     children = Some (code (h r)), injectTo = HeadPrepend\<rparr>);
        style = (\<lambda>r. \<lparr>tag = ''style'',
                     attrs = [(''type'', ''text/css''), (''WAKU_ATTR_NAME'', id' (h r))],
                     children = Some (source (h r)), injectTo = Body\<rparr>)
    in (modulePendingMap w v = Some [a, b] \<longrightarrow> css a \<longrightarrow> \<not> css b \<longrightarrow>
          generateInitialScripts h w (Some v) = [blocking, script a, style b])
       \<and> (modulePendingMap w v = Some rs \<longrightarrow>
          generateInitialScripts h w (Some v)
            = map style (takeWhile (\<lambda>r. \<not> css r) rs)
              @ (case dropWhile (\<lambda>r. \<not> css r) rs of
                   [] \<Rightarrow> []
                 | r # rest \<Rightarrow>
                     blocking # script r # map (\<lambda>r. if css r then script r else style r) rest)
          \<and> count_list (generateInitialScripts h w (Some v)) blocking
            = (if \<exists>r \<in> set rs. css r then 1 else 0)))"
  using generateInitialScripts_shape [of w v a b h rs]
  unfolding Let_def isCssModule_iff blockingViteClient_def cssModuleScript_def styleTag_def
  by blast

theorem generateInitialScripts_order_witness:
  "modulePendingMap w2 0 = Some [11, 12]
   \<and> (\<exists>p. id' (h0 11) = p @ ''.module.css'')
   \<and> \<not> (\<exists>p. id' (h0 12) = p @ ''.module.css'')
   \<and> generateInitialScripts h0 w2 (Some 0)
      = [\<lparr>tag = ''script'',
          attrs = [(''type'', ''module''), (''blocking'', ''render''), (''src'', ''/@vite/client'')],
          children = None, injectTo = HeadPrepend\<rparr>,
         \<lparr>tag = ''script'',
          attrs = [(''type'', ''module''), (''WAKU_ATTR_NAME'', ''/src/app.module.css'')],
          children = Some ''import \"/@vite/client\"'', injectTo = HeadPrepend\<rparr>,
         \<lparr>tag = ''style'',
          attrs = [(''type'', ''text/css''), (''WAKU_ATTR_NAME'', ''/src/base.css'')],
          children = Some ''body { margin: 0 }'', injectTo = Body\<rparr>]
   \<and> count_list (generateInitialScripts h0 w2 (Some 0))
        \<lparr>tag = ''script'',
         attrs = [(''type'', ''module''), (''blocking'', ''render''), (''src'', ''/@vite/client'')],
         children = None, injectTo = HeadPrepend\<rparr> = 1"
proof -
  have m: "modulePendingMap w2 0 = Some [11, 12]" by (rule w2_eval(1))
  have c: "\<exists>p. id' (h0 11) = p @ ''.module.css''" "\<not> (\<exists>p. id' (h0 12) = p @ ''.module.css'')"
    using css1 [unfolded isCssModule_iff] by blast+
  have e: "\<exists>r \<in> set [11, 12::nat]. \<exists>p. id' (h0 r) = p @ ''.module.css''" using c(1) by simp
  have v: "id' (h0 11) = ''/src/app.module.css''" "code (h0 11) = ''import \"/@vite/client\"''"
    "id' (h0 12) = ''/src/base.css''" "source (h0 12) = ''body { margin: 0 }''"
    by (simp_all add: h0_def)
  note t = generateInitialScripts_order [where w = w2 and v = 0 and a = 11 and b = 12
      and h = h0 and rs = "[11, 12]", unfolded Let_def]
  from t m c have g: "generateInitialScripts h0 w2 (Some 0)
      = [\<lparr>tag = ''script'',
          attrs = [(''type'', ''module''), (''blocking'', ''render''), (''src'', ''/@vite/client'')],
          children = None, injectTo = HeadPrepend\<rparr>,
         \<lparr>tag = ''script'',
          attrs = [(''type'', ''module''), (''WAKU_ATTR_NAME'', id' (h0 11))],
          children = Some (code (h0 11)), injectTo = HeadPrepend\<rparr>,
         \<lparr>tag = ''style'',
          attrs = [(''type'', ''text/css''), (''WAKU_ATTR_NAME'', id' (h0 12))],
          children = Some (source (h0 12)), injectTo = Body\<rparr>]"
    by blast
  from t m have k: "count_list (generateInitialScripts h0 w2 (Some 0))
        \<lparr>tag = ''script'',
         attrs = [(''type'', ''module''), (''blocking'', ''render''), (''src'', ''/@vite/client'')],
         children = None, injectTo = HeadPrepend\<rparr>
        = (if \<exists>r \<in> set [11, 12::nat]. \<exists>p. id' (h0 r) = p @ ''.module.css'' then 1 else 0)"
    by blast
  have n: "count_list (generateInitialScripts h0 w2 (Some 0))
        \<lparr>tag = ''script'',
         attrs = [(''type'', ''module''), (''blocking'', ''render''), (''src'', ''/@vite/client'')],
         children = None, injectTo = HeadPrepend\<rparr> = 1"
    using k by (simp only: e if_True)
  from m c g n show ?thesis unfolding v by blast
qed

lemma ascii_lowercase_simps:
  "ascii_lowercase ''waku-module-id'' = ''waku-module-id''"
  "ascii_lowercase ''WAKU_ATTR_NAME'' = ''waku_attr_name''"
  "ascii_lowercase ''type'' = ''type''"
  "ascii_lowercase ''blocking'' = ''blocking''"
  "ascii_lowercase ''src'' = ''src''"
  by code_simp+

lemma not_tagged [simp]:
  "\<not> hasAttribute WAKU_ATTR_NAME blockingViteClient"
  "\<not> hasAttribute WAKU_ATTR_NAME (cssModuleScript x)"
  "\<not> hasAttribute WAKU_ATTR_NAME (styleTag x)"
  by (simp_all add: hasAttribute_def WAKU_ATTR_NAME_def blockingViteClient_def
      cssModuleScript_def styleTag_def ascii_lowercase_simps)



lemma for_of_not_tagged:
  "\<forall>e \<in> set acc. \<not> hasAttribute WAKU_ATTR_NAME e \<Longrightarrow>
   \<forall>e \<in> set (fst (for_of h rs (acc, flag))). \<not> hasAttribute WAKU_ATTR_NAME e"
proof (induction rs arbitrary: acc flag)
  case Nil
  then show ?case by simp
next
  case (Cons r rs)
  have a: "\<forall>e \<in> set (acc @ [blockingViteClient] @ [cssModuleScript (h r)]). \<not> hasAttribute WAKU_ATTR_NAME e"
    using Cons.prems by simp
  have b: "\<forall>e \<in> set (acc @ [cssModuleScript (h r)]). \<not> hasAttribute WAKU_ATTR_NAME e"
    using Cons.prems by simp
  have c: "\<forall>e \<in> set (acc @ [styleTag (h r)]). \<not> hasAttribute WAKU_ATTR_NAME e"
    using Cons.prems by simp
  show ?case
    using Cons.IH [OF a, of True] Cons.IH [OF b, of flag] Cons.IH [OF c, of flag]
    by (simp del: append.simps set_append)
qed

lemma filter_id: "\<forall>e \<in> set xs. \<not> P e \<Longrightarrow> filter (\<lambda>e. \<not> P e) xs = xs"
  by (induction xs) auto

lemma on_rsc_reload_keeps_planned:
  "on_rsc_reload (generateInitialScripts h w vopt) = generateInitialScripts h w vopt"
proof -
  have "\<forall>e \<in> set (generateInitialScripts h w vopt). \<not> hasAttribute WAKU_ATTR_NAME e"
    using for_of_not_tagged [of "[]" h _ False]
    by (auto simp: generateInitialScripts_def split: option.splits)
  then show ?thesis unfolding on_rsc_reload_def by (rule filter_id)
qed

text \<open>
  Claim C6, evaluated on the code. The planner's elements carry the identity under
  the attribute name \<^verbatim>\<open>WAKU_ATTR_NAME\<close>, not under \<^verbatim>\<open>waku-module-id\<close>, the value of
  the constant that the client's selectors use: the selector of the \<^verbatim>\<open>rsc-reload\<close>
  handler matches none of them and the handler removes none.
\<close>

theorem planned_elements_survive_rsc_reload:
  "generateInitialScripts h0 w2 (Some 0)
     = [blockingViteClient, cssModuleScript (h0 11), styleTag (h0 12)]
   \<and> map fst (attrs (cssModuleScript (h0 11))) = [''type'', ''WAKU_ATTR_NAME'']
   \<and> map fst (attrs (styleTag (h0 12))) = [''type'', ''WAKU_ATTR_NAME'']
   \<and> querySelectorAll_attr WAKU_ATTR_NAME (generateInitialScripts h0 w2 (Some 0)) = []
   \<and> on_rsc_reload (generateInitialScripts h0 w2 (Some 0))
     = generateInitialScripts h0 w2 (Some 0)"
proof -
  have g: "generateInitialScripts h0 w2 (Some 0)
     = [blockingViteClient, cssModuleScript (h0 11), styleTag (h0 12)]"
    using css1 by (simp add: generateInitialScripts_def w2_eval)
  have a: "map fst (attrs (cssModuleScript (h0 11))) = [''type'', ''WAKU_ATTR_NAME'']"
    by (simp add: cssModuleScript_def)
  have b: "map fst (attrs (styleTag (h0 12))) = [''type'', ''WAKU_ATTR_NAME'']"
    by (simp add: styleTag_def)
  have q: "querySelectorAll_attr WAKU_ATTR_NAME
             [blockingViteClient, cssModuleScript (h0 11), styleTag (h0 12)] = []"
    by (simp add: querySelectorAll_attr_def)
  have r: "on_rsc_reload [blockingViteClient, cssModuleScript (h0 11), styleTag (h0 12)]
     = [blockingViteClient, cssModuleScript (h0 11), styleTag (h0 12)]"
    by (simp add: on_rsc_reload_def)
  show ?thesis using g a b q r by simp
qed

end
